theory Spec2Isabelle
  imports Main "HOL-Library.Sublist" "HOL-Library.Monad_Syntax"
begin

section \<open>A model of the parts of \<open>std::regex\<close> the preprocessor uses\<close>

text \<open>
  The six regular expressions of \<open>glsl_preprocess.hh\<close> are written in the default
  (ECMAScript) grammar and use literals, the escapes \<open>\s\<close>, \<open>\w\<close>, \<open>\d\<close>, negated
  bracket sets, capture groups, alternation and the quantifiers \<open>*\<close>, \<open>+\<close>, \<open>*?\<close>
  applied to one-character atoms. Characters are bytes and the classes are those of the
  classic locale.
\<close>

datatype atom = AChr char | ASpace | AWord | ADigit

datatype cclass = Is atom | NoneOf "atom list"

definition is_space :: "char \<Rightarrow> bool" where
  "is_space c = (c = CHR '' '' \<or> (9 \<le> (of_char c :: nat) \<and> (of_char c :: nat) \<le> 13))"

definition is_digit :: "char \<Rightarrow> bool" where
  "is_digit c = (48 \<le> (of_char c :: nat) \<and> (of_char c :: nat) \<le> 57)"

definition is_word :: "char \<Rightarrow> bool" where
  "is_word c = (is_digit c \<or> c = CHR ''_''
     \<or> (65 \<le> (of_char c :: nat) \<and> (of_char c :: nat) \<le> 90)
     \<or> (97 \<le> (of_char c :: nat) \<and> (of_char c :: nat) \<le> 122))"

fun atom_match :: "atom \<Rightarrow> char \<Rightarrow> bool" where
  "atom_match (AChr a) c = (c = a)"
| "atom_match ASpace c = is_space c"
| "atom_match AWord c = is_word c"
| "atom_match ADigit c = is_digit c"

fun cclass_match :: "cclass \<Rightarrow> char \<Rightarrow> bool" where
  "cclass_match (Is a) c = atom_match a c"
| "cclass_match (NoneOf as) c = (\<not> list_ex (\<lambda>a. atom_match a c) as)"

text \<open>
  A regular expression is a sequence of nodes. \<open>Rep c True\<close> is the greedy \<open>c*\<close>,
  \<open>Rep c False\<close> the lazy \<open>c*?\<close>; \<open>c+\<close> is \<open>Sym c\<close> followed by \<open>Rep c True\<close>.
  \<open>Close n b\<close> is not part of the surface syntax: the matcher pushes it when it enters
  group \<open>n\<close> at offset \<open>b\<close>, and records the capture when it reaches it.
\<close>

datatype re =
    Sym cclass
  | Rep cclass bool
  | Alt "re list list"
  | Grp nat "re list"
  | Close nat nat

type_synonym captures = "(nat \<times> nat \<times> nat) list"

fun re_weight :: "re \<Rightarrow> nat" where
  "re_weight (Sym c) = 1"
| "re_weight (Rep c g) = 1"
| "re_weight (Alt as) = Suc (sum_list (map (\<lambda>a. Suc (sum_list (map re_weight a))) as))"
| "re_weight (Grp n r) = Suc (Suc (sum_list (map re_weight r)))"
| "re_weight (Close n b) = 1"

definition seq_weight :: "re list \<Rightarrow> nat" where
  "seq_weight k = sum_list (map re_weight k)"

definition alts_weight :: "re list list \<Rightarrow> nat" where
  "alts_weight as = sum_list (map (\<lambda>a. Suc (seq_weight a)) as)"

text \<open>
  The backtracking matcher, in the priority order of ECMAScript: the first alternative
  first, a greedy star the longest run first, a lazy star the shortest first.
  \<open>re_match nn k s pos caps\<close> matches the sequence \<open>k\<close> against the text \<open>s\<close> that
  starts at offset \<open>pos\<close> of the attempt, and returns the offset where the match ends
  with the captures. \<open>nn\<close> is the flag \<open>match_not_null\<close>: an empty match is refused.
\<close>

function re_match :: "bool \<Rightarrow> re list \<Rightarrow> string \<Rightarrow> nat \<Rightarrow> captures \<Rightarrow> (nat \<times> captures) option"
  and re_alts :: "bool \<Rightarrow> re list list \<Rightarrow> re list \<Rightarrow> string \<Rightarrow> nat \<Rightarrow> captures \<Rightarrow> (nat \<times> captures) option"
where
  "re_match nn [] s pos caps = (if nn \<and> pos = 0 then None else Some (pos, caps))"
| "re_match nn (Sym c # k) [] pos caps = None"
| "re_match nn (Sym c # k) (x # xs) pos caps =
     (if cclass_match c x then re_match nn k xs (Suc pos) caps else None)"
| "re_match nn (Rep c g # k) [] pos caps = re_match nn k [] pos caps"
| "re_match nn (Rep c True # k) (x # xs) pos caps =
     (if cclass_match c x then
        (case re_match nn (Rep c True # k) xs (Suc pos) caps of
           Some r \<Rightarrow> Some r
         | None \<Rightarrow> re_match nn k (x # xs) pos caps)
      else re_match nn k (x # xs) pos caps)"
| "re_match nn (Rep c False # k) (x # xs) pos caps =
     (case re_match nn k (x # xs) pos caps of
        Some r \<Rightarrow> Some r
      | None \<Rightarrow> (if cclass_match c x then re_match nn (Rep c False # k) xs (Suc pos) caps
                 else None))"
| "re_match nn (Alt as # k) s pos caps = re_alts nn as k s pos caps"
| "re_match nn (Grp n r # k) s pos caps = re_match nn (r @ Close n pos # k) s pos caps"
| "re_match nn (Close n b # k) s pos caps = re_match nn k s pos ((n, b, pos) # caps)"
| "re_alts nn [] k s pos caps = None"
| "re_alts nn (a # as) k s pos caps =
     (case re_match nn (a @ k) s pos caps of
        Some r \<Rightarrow> Some r
      | None \<Rightarrow> re_alts nn as k s pos caps)"
  by pat_completeness auto
termination
  by (relation "measures [
        (\<lambda>x. case x of
          Inl (nn, k, s, pos, caps) \<Rightarrow> seq_weight k
        | Inr (nn, as, k, s, pos, caps) \<Rightarrow> alts_weight as + seq_weight k),
        (\<lambda>x. case x of
          Inl (nn, k, s, pos, caps) \<Rightarrow> length s
        | Inr (nn, as, k, s, pos, caps) \<Rightarrow> length s)]")
    (auto simp: seq_weight_def alts_weight_def)


text \<open>
  \<open>std::smatch\<close>: the text before the match, the match, the captured groups that took
  part in it, and the text after it. \<open>smatch_none\<close> is a default-constructed
  \<open>std::smatch()\<close>.
\<close>

record smatch =
  m_empty :: bool
  m_prefix :: string
  m_matched :: string
  m_groups :: "(nat \<times> string) list"
  m_suffix :: string

definition smatch_none :: smatch where
  "smatch_none = \<lparr>m_empty = True, m_prefix = [], m_matched = [], m_groups = [], m_suffix = []\<rparr>"

definition mk_smatch :: "string \<Rightarrow> string \<Rightarrow> nat \<Rightarrow> captures \<Rightarrow> smatch" where
  "mk_smatch pre s e caps =
     \<lparr>m_empty = False, m_prefix = pre, m_matched = take e s,
      m_groups = map (\<lambda>(n, b, e'). (n, take (e' - b) (drop b s))) caps,
      m_suffix = drop e s\<rparr>"

text \<open>\<open>match[n].str()\<close>: the empty string for a group that did not take part.\<close>

definition m_str :: "smatch \<Rightarrow> nat \<Rightarrow> string" where
  "m_str m n =
     (if n = 0 then m_matched m
      else case map_of (m_groups m) n of Some g \<Rightarrow> g | None \<Rightarrow> [])"

text \<open>
  \<open>std::regex_search\<close>: the attempt at the first offset, then at each later one, the end
  of the text included.
\<close>

fun search_from :: "re list \<Rightarrow> string \<Rightarrow> string \<Rightarrow> smatch option" where
  "search_from r pre [] =
     (case re_match False r [] 0 [] of
        Some (e, caps) \<Rightarrow> Some (mk_smatch pre [] e caps)
      | None \<Rightarrow> None)"
| "search_from r pre (x # xs) =
     (case re_match False r (x # xs) 0 [] of
        Some (e, caps) \<Rightarrow> Some (mk_smatch pre (x # xs) e caps)
      | None \<Rightarrow> search_from r (pre @ [x]) xs)"

definition regex_search :: "string \<Rightarrow> re list \<Rightarrow> smatch option" where
  "regex_search s r = search_from r [] s"

text \<open>
  \<open>match_results::format\<close> with the ECMAScript rules: \<open>$$\<close>, \<open>$&\<close>, the prefix and
  suffix escapes, and \<open>$n\<close> or \<open>$nn\<close> for a group.
\<close>

definition digit_val :: "char \<Rightarrow> nat" where
  "digit_val c = of_char c - 48"

fun format :: "smatch \<Rightarrow> string \<Rightarrow> string" where
  "format m [] = []"
| "format m [c] = [c]"
| "format m (c # d # rest) =
     (if c \<noteq> CHR ''$'' then c # format m (d # rest)
      else if d = CHR ''$'' then CHR ''$'' # format m rest
      else if d = CHR ''&'' then m_str m 0 @ format m rest
      else if d = CHR 0x60 then m_prefix m @ format m rest
      else if d = CHR 0x27 then m_suffix m @ format m rest
      else if is_digit d then
        (case rest of
           [] \<Rightarrow> m_str m (digit_val d)
         | d2 # rest' \<Rightarrow>
             if is_digit d2 then m_str m (10 * digit_val d + digit_val d2) @ format m rest'
             else m_str m (digit_val d) @ format m rest)
      else CHR ''$'' # format m (d # rest))"

text \<open>
  \<open>std::regex_replace\<close> walks a \<open>regex_iterator\<close>. After a match that is not empty the
  next search starts where it ended. After an empty match the iterator stops at the end
  of the text, and otherwise first tries a match that is not empty at the same offset,
  then searches from the next character on.
\<close>

definition iterator_next :: "re list \<Rightarrow> bool \<Rightarrow> string \<Rightarrow> smatch option" where
  "iterator_next r prev_empty s =
     (if prev_empty then
        (case s of
           [] \<Rightarrow> None
         | x # xs \<Rightarrow>
             (case re_match True r s 0 [] of
                Some (e, caps) \<Rightarrow> Some (mk_smatch [] s e caps)
              | None \<Rightarrow> search_from r [x] xs))
      else search_from r [] s)"

lemma re_match_not_null:
  "re_match nn k s pos caps = Some (e, c) \<Longrightarrow> nn \<Longrightarrow> 0 < e"
  "re_alts nn as k s pos caps = Some (e, c) \<Longrightarrow> nn \<Longrightarrow> 0 < e"
  by (induction nn k s pos caps and nn as k s pos caps rule: re_match_re_alts.induct)
     (auto split: if_splits option.splits)

lemma search_from_suffix_le:
  "search_from r pre s = Some m \<Longrightarrow> length (m_suffix m) \<le> length s"
  by (induction r pre s rule: search_from.induct)
     (auto simp: mk_smatch_def split: option.splits)

lemma search_from_suffix_less:
  "search_from r pre s = Some m \<Longrightarrow> m_matched m \<noteq> [] \<Longrightarrow> length (m_suffix m) < length s"
  by (induction r pre s rule: search_from.induct)
     (auto simp: mk_smatch_def split: option.splits)

function regex_replace_from :: "re list \<Rightarrow> string \<Rightarrow> bool \<Rightarrow> string \<Rightarrow> string" where
  "regex_replace_from r fmt prev_empty s =
     (case iterator_next r prev_empty s of
        None \<Rightarrow> s
      | Some m \<Rightarrow>
          m_prefix m @ format m fmt @ regex_replace_from r fmt (m_matched m = []) (m_suffix m))"
  by pat_completeness auto
termination
proof (relation "measure (\<lambda>(r, fmt, pe, s). 2 * length s + (if pe then 0 else 1))", goal_cases)
  case 1
  show ?case by simp
next
  case (2 r fmt prev_empty s m)
  show ?case
  proof (cases prev_empty)
    case False
    with 2 have sf: "search_from r [] s = Some m" by (simp add: iterator_next_def)
    from search_from_suffix_le[OF sf] search_from_suffix_less[OF sf]
    show ?thesis using False by (cases "m_matched m = []") auto
  next
    case True
    with 2 obtain x xs where s: "s = x # xs"
      by (cases s) (auto simp: iterator_next_def)
    show ?thesis
    proof (cases "re_match True r s 0 []")
      case None
      with 2 True s have sf: "search_from r [x] xs = Some m" by (simp add: iterator_next_def)
      from search_from_suffix_le[OF sf] show ?thesis using True s by auto
    next
      case (Some ec)
      obtain e caps where ec: "ec = (e, caps)" by (cases ec)
      from Some ec re_match_not_null(1)[of True r s 0 "[]" e caps] have "0 < e" by simp
      moreover from 2 True s Some ec have "m = mk_smatch [] s e caps"
        by (simp add: iterator_next_def)
      ultimately show ?thesis using True s by (auto simp: mk_smatch_def)
    qed
  qed
qed

declare regex_replace_from.simps [simp del]

definition regex_replace :: "string \<Rightarrow> re list \<Rightarrow> string \<Rightarrow> string" where
  "regex_replace s r fmt = regex_replace_from r fmt False s"

definition lit :: "string \<Rightarrow> re list" where
  "lit s = map (\<lambda>c. Sym (Is (AChr c))) s"

definition plus :: "cclass \<Rightarrow> re list" where
  "plus c = [Sym c, Rep c True]"


section \<open>The preprocessor\<close>

subsection \<open>\<open>std::string::find\<close>\<close>

text \<open>
  \<open>s.find(pat, pos)\<close>: the first offset at or after \<open>pos\<close> where \<open>pat\<close> occurs, and
  \<open>npos\<close> (here \<open>None\<close>) when there is none.
\<close>

fun find_in :: "string \<Rightarrow> string \<Rightarrow> nat \<Rightarrow> nat option" where
  "find_in pat [] i = (if pat = [] then Some i else None)"
| "find_in pat (x # xs) i = (if prefix pat (x # xs) then Some i else find_in pat xs (Suc i))"

definition str_find :: "string \<Rightarrow> string \<Rightarrow> nat \<Rightarrow> nat option" where
  "str_find s pat pos = (if length s < pos then None else find_in pat (drop pos s) pos)"

subsection \<open>Data\<close>

record SharedVar =
  type :: string
  name :: string
  array :: string

text \<open>
  The members \<open>shared_vars_\<close> and \<open>output_\<close> (a string stream) of the class (a trailing underscore is not
  a name here).
\<close>

record Preprocessor =
  shared_vars :: "SharedVar list"
  output_ss :: string

definition fresh :: Preprocessor where
  "fresh = \<lparr>shared_vars = [], output_ss = []\<rparr>"

text \<open>
  The caller's \<open>report_error\<close>: a callback that returns, whose effect is a change of
  the caller's own state \<open>'e\<close>. Its result is not read by the preprocessor.
\<close>

type_synonym 'e report = "string \<Rightarrow> smatch \<Rightarrow> string \<Rightarrow> 'e \<Rightarrow> 'e"

subsection \<open>\<open>remove_comments\<close>\<close>

definition blank_multi :: "string \<Rightarrow> nat \<Rightarrow> nat \<Rightarrow> string" where
  "blank_multi out_str start end' =
     fold (\<lambda>i s. if s ! i \<noteq> CHR ''\<newline>'' then s[i := CHR '' ''] else s) [start..<end' + 2] out_str"

definition blank_single :: "string \<Rightarrow> nat \<Rightarrow> nat \<Rightarrow> string" where
  "blank_single out_str start end' = fold (\<lambda>i s. s[i := CHR '' '']) [start..<end'] out_str"

lemma find_in_bounds: "find_in pat s i = Some j \<Longrightarrow> i \<le> j \<and> j + length pat \<le> i + length s"
proof (induction pat s i rule: find_in.induct)
  case (1 pat i)
  then show ?case by (auto split: if_splits)
next
  case (2 pat x xs i)
  show ?case
  proof (cases "prefix pat (x # xs)")
    case True
    with 2 show ?thesis by (auto dest: prefix_length_le)
  next
    case False
    with 2 show ?thesis by fastforce
  qed
qed

lemma str_find_bounds: "str_find s pat pos = Some j \<Longrightarrow> pos \<le> j \<and> j + length pat \<le> length s"
  by (auto simp: str_find_def split: if_splits dest!: find_in_bounds)

lemma length_blank_multi [simp]: "length (blank_multi s a b) = length s"
proof -
  have "length (fold (\<lambda>i s. if s ! i \<noteq> CHR ''\<newline>'' then s[i := CHR '' ''] else s) is s) = length s"
    for "is" by (induction "is" arbitrary: s) auto
  then show ?thesis by (simp add: blank_multi_def)
qed

lemma length_blank_single [simp]: "length (blank_single s a b) = length s"
proof -
  have "length (fold (\<lambda>i s. s[i := CHR '' '']) is s) = length s"
    for "is" by (induction "is" arbitrary: s) auto
  then show ?thesis by (simp add: blank_single_def)
qed

text \<open>
  The two scanning loops. Each returns the text and the last value of \<open>end\<close>:
  \<open>None\<close> when the loop was left by \<open>break\<close> with \<open>end == npos\<close>.
\<close>

function multi_line_loop :: "string \<Rightarrow> nat \<Rightarrow> string \<times> nat option" where
  "multi_line_loop out_str end' =
     (case str_find out_str ''/*'' end' of
        None \<Rightarrow> (out_str, Some end')
      | Some start \<Rightarrow>
          (case str_find out_str ''*/'' (start + 2) of
             None \<Rightarrow> (out_str, None)
           | Some end'' \<Rightarrow> multi_line_loop (blank_multi out_str start end'') end''))"
  by pat_completeness auto
termination
  by (relation "measure (\<lambda>(out_str, e). length out_str - e)")
     (auto dest!: str_find_bounds)

declare multi_line_loop.simps [simp del]

function single_line_loop :: "string \<Rightarrow> nat \<Rightarrow> string \<times> nat option" where
  "single_line_loop out_str end' =
     (case str_find out_str ''//'' end' of
        None \<Rightarrow> (out_str, Some end')
      | Some start \<Rightarrow>
          (case str_find out_str ''\<newline>'' (start + 2) of
             None \<Rightarrow> (out_str, None)
           | Some end'' \<Rightarrow> single_line_loop (blank_single out_str start end'') end''))"
  by pat_completeness auto
termination
  by (relation "measure (\<lambda>(out_str, e). length out_str - e)")
     (auto dest!: str_find_bounds)

declare single_line_loop.simps [simp del]

text \<open>
  \<open>"(\\ )*?\\n"\<close>. The source writes the blank as a group; the replacement text never
  reads a group, so the blank is starred as it is.
\<close>

definition trailing_space_regex :: "re list" where
  "trailing_space_regex = [Rep (Is (AChr CHR '' '')) False, Sym (Is (AChr CHR ''\<newline>''))]"

definition remove_comments :: "string \<Rightarrow> 'e report \<Rightarrow> 'e \<Rightarrow> string \<times> 'e" where
  "remove_comments str report_error e =
     (case multi_line_loop str 0 of
        (out_str, None) \<Rightarrow>
          (out_str, report_error str smatch_none ''Malformed multi-line comment.'' e)
      | (out_str, Some _) \<Rightarrow>
          (case single_line_loop out_str 0 of
             (out_str, None) \<Rightarrow>
               (out_str,
                report_error str smatch_none ''Malformed single line comment, missing newline.'' e)
           | (out_str, Some _) \<Rightarrow>
               (regex_replace out_str trailing_space_regex ''\<newline>'', e)))"

subsection \<open>The mutating passes\<close>

text \<open>\<open>"#\\s*(include|pragma once)"\<close>\<close>

definition directive_regex :: "re list" where
  "directive_regex =
     lit ''#'' @ [Rep (Is ASpace) True, Grp 1 [Alt [lit ''include'', lit ''pragma once'']]]"

definition preprocessor_directive_mutation :: "string \<Rightarrow> string" where
  "preprocessor_directive_mutation str = regex_replace str directive_regex ''//$1''"

text \<open>\<open>"(out|inout|in|shared)\\s+(\\w+)\\s+(\\w+)"\<close>\<close>

definition argument_regex :: "re list" where
  "argument_regex =
     [Grp 1 [Alt [lit ''out'', lit ''inout'', lit ''in'', lit ''shared'']]]
     @ plus (Is ASpace) @ [Grp 2 (plus (Is AWord))]
     @ plus (Is ASpace) @ [Grp 3 (plus (Is AWord))]"

definition argument_decorator_macro_injection :: "string \<Rightarrow> string" where
  "argument_decorator_macro_injection str =
     regex_replace str argument_regex ''$1 $2 _$1_sta $3 _$1_end''"

text \<open>\<open>"=\\s*(\\w+)\\s*\\[[^\\]]*\\]\\s*\\("\<close>\<close>

definition array_regex :: "re list" where
  "array_regex =
     lit ''='' @ [Rep (Is ASpace) True, Grp 1 (plus (Is AWord)), Rep (Is ASpace) True]
     @ lit ''['' @ [Rep (NoneOf [AChr CHR '']'']) True] @ lit '']''
     @ [Rep (Is ASpace) True] @ lit ''(''"

definition array_constructor_macro_injection :: "string \<Rightarrow> string" where
  "array_constructor_macro_injection str =
     regex_replace str array_regex ''= ARRAY_T($1) ARRAY_V(''"

subsection \<open>The scanning passes\<close>

text \<open>
  Each is the loop
  \<open>for (std::smatch match; std::regex_search(str, match, regex); str = match.suffix())\<close>,
  which goes on for as long as a match is found: \<open>None\<close> is the loop that never ends.
\<close>

text \<open>\<open>"shared\\s+(\\w+)\\s+(\\w+)([^;]*);"\<close>\<close>

definition shared_regex :: "re list" where
  "shared_regex =
     lit ''shared'' @ plus (Is ASpace) @ [Grp 1 (plus (Is AWord))]
     @ plus (Is ASpace) @ [Grp 2 (plus (Is AWord))]
     @ [Grp 3 [Rep (NoneOf [AChr CHR '';'']) True]] @ lit '';''"

partial_function (option) threadgroup_variable_parsing ::
  "Preprocessor \<Rightarrow> string \<Rightarrow> Preprocessor option" where
  "threadgroup_variable_parsing p str =
     (case regex_search str shared_regex of
        None \<Rightarrow> Some p
      | Some match \<Rightarrow>
          threadgroup_variable_parsing
            (p\<lparr>shared_vars := shared_vars p @
                 [\<lparr>type = m_str match 1, name = m_str match 2, array = m_str match 3\<rparr>]\<rparr>)
            (m_suffix match))"

declare threadgroup_variable_parsing.simps [code]

text \<open>\<open>"\\s+(mat(\\d|\\dx\\d)|float\\dx\\d)\\([^,\\s\\d]+\\)"\<close>\<close>

definition matrix_regex :: "re list" where
  "matrix_regex =
     plus (Is ASpace)
     @ [Grp 1 [Alt [lit ''mat'' @ [Grp 2 [Alt [[Sym (Is ADigit)],
                                              [Sym (Is ADigit)] @ lit ''x'' @ [Sym (Is ADigit)]]]],
                    lit ''float'' @ [Sym (Is ADigit)] @ lit ''x'' @ [Sym (Is ADigit)]]]]
     @ lit ''('' @ plus (NoneOf [AChr CHR '','', ASpace, ADigit]) @ lit '')''"

definition matrix_msg :: string where
  "matrix_msg = ''Matrix constructor is not cross API compatible. '' @
     ''Use to_floatNxM to reshape the matrix or use other constructors instead.''"

partial_function (option) matrix_constructor_linting ::
  "string \<Rightarrow> 'e report \<Rightarrow> 'e \<Rightarrow> 'e option" where
  "matrix_constructor_linting str report_error e =
     (case regex_search str matrix_regex of
        None \<Rightarrow> Some e
      | Some match \<Rightarrow>
          matrix_constructor_linting (m_suffix match) report_error
            (report_error str match matrix_msg e))"

declare matrix_constructor_linting.simps [code]

definition array_msg :: string where
  "array_msg =
     ''Array constructor is not cross API compatible. Use type_array instead of type[].''"

partial_function (option) array_constructor_linting ::
  "string \<Rightarrow> 'e report \<Rightarrow> 'e \<Rightarrow> 'e option" where
  "array_constructor_linting str report_error e =
     (case regex_search str array_regex of
        None \<Rightarrow> Some e
      | Some match \<Rightarrow>
          array_constructor_linting (m_suffix match) report_error
            (report_error str match array_msg e))"

declare array_constructor_linting.simps [code]

subsection \<open>\<open>suffix\<close>\<close>

text \<open>
  The loop over \<open>shared_vars_\<close>, with the four string streams \<open>args\<close>, \<open>assign\<close>,
  \<open>declare\<close>, \<open>pass\<close> and the flag \<open>first\<close>.
\<close>

fun suffix_loop ::
  "SharedVar list \<Rightarrow> bool \<Rightarrow> string \<times> string \<times> string \<times> string
     \<Rightarrow> string \<times> string \<times> string \<times> string" where
  "suffix_loop [] first streams = streams"
| "suffix_loop (var # vars) first (args, assign, declare, pass) =
     (let sep = (if first then CHR '' '' else CHR '','') in
      suffix_loop vars False
        (args @ [sep] @ ''threadgroup '' @ type var @ ''(&_'' @ name var @ '')'' @ array var,
         assign @ [if first then CHR '':'' else CHR '',''] @ name var @ ''(_'' @ name var @ '')'',
         declare @ ''threadgroup '' @ type var @ '' '' @ name var @ array var @ '';'',
         pass @ [sep] @ name var))"

definition suffix' :: "Preprocessor \<Rightarrow> string" where
  "suffix' p =
     (if shared_vars p = [] then []
      else case suffix_loop (shared_vars p) True ([], [], [], []) of
        (args, assign, declare, pass) \<Rightarrow>
          ''#undef MSL_SHARED_VARS_ARGS\<newline>'' @
          ''#undef MSL_SHARED_VARS_ASSIGN\<newline>'' @
          ''#undef MSL_SHARED_VARS_DECLARE\<newline>'' @
          ''#undef MSL_SHARED_VARS_PASS\<newline>'' @
          ''#define MSL_SHARED_VARS_ARGS '' @ args @ ''\<newline>'' @
          ''#define MSL_SHARED_VARS_ASSIGN '' @ assign @ ''\<newline>'' @
          ''#define MSL_SHARED_VARS_DECLARE '' @ declare @ ''\<newline>'' @
          ''#define MSL_SHARED_VARS_PASS ('' @ pass @ '')\<newline>'')"

subsection \<open>\<open>process\<close>\<close>

definition process ::
  "Preprocessor \<Rightarrow> string \<Rightarrow> bool \<Rightarrow> bool \<Rightarrow> bool \<Rightarrow> 'e report \<Rightarrow> 'e
     \<Rightarrow> (string \<times> Preprocessor \<times> 'e) option" where
  "process p str do_linting do_string_mutation do_include_mutation report_error e =
     (case remove_comments str report_error e of
        (str1, e1) \<Rightarrow>
          do {
            p1 \<leftarrow> threadgroup_variable_parsing p str1;
            e2 \<leftarrow> matrix_constructor_linting str1 report_error e1;
            e3 \<leftarrow> array_constructor_linting str1 report_error e2;
            let str2 = preprocessor_directive_mutation str1;
            let str3 = argument_decorator_macro_injection str2;
            let str4 = array_constructor_macro_injection str3;
            Some (str4 @ suffix' p1, p1, e3)
          })"

text \<open>The variant for Python shaders, \<open>process(const std::string &)\<close>.\<close>

definition no_err_report :: "unit report" where
  "no_err_report = (\<lambda>_ _ _ e. e)"

definition process' :: "Preprocessor \<Rightarrow> string \<Rightarrow> (string \<times> Preprocessor) option" where
  "process' p str =
     map_option (\<lambda>(s, p', _). (s, p')) (process p str False False False no_err_report ())"

subsection \<open>\<open>process\<close> with a callback that throws\<close>

text \<open>
  A \<open>report_error\<close> that may throw. \<open>process\<close> has no \<open>try\<close> block and calls the
  callback in \<open>remove_comments\<close> and in the two linting loops: an exception that the
  callback throws leaves these functions and \<open>process\<close> at the call. \<open>Inl x\<close> is a
  call that throws \<open>x\<close>, \<open>Inr e\<close> a call that returns and leaves the caller's state
  \<open>e\<close>.
\<close>

type_synonym ('x, 'e) throwing_report = "string \<Rightarrow> smatch \<Rightarrow> string \<Rightarrow> 'e \<Rightarrow> 'x + 'e"

definition remove_comments_x ::
  "string \<Rightarrow> ('x, 'e) throwing_report \<Rightarrow> 'e \<Rightarrow> 'x + string \<times> 'e" where
  "remove_comments_x str report_error e =
     (case multi_line_loop str 0 of
        (out_str, None) \<Rightarrow>
          (case report_error str smatch_none ''Malformed multi-line comment.'' e of
             Inl x \<Rightarrow> Inl x
           | Inr e' \<Rightarrow> Inr (out_str, e'))
      | (out_str, Some _) \<Rightarrow>
          (case single_line_loop out_str 0 of
             (out_str, None) \<Rightarrow>
               (case report_error str smatch_none
                       ''Malformed single line comment, missing newline.'' e of
                  Inl x \<Rightarrow> Inl x
                | Inr e' \<Rightarrow> Inr (out_str, e'))
           | (out_str, Some _) \<Rightarrow>
               Inr (regex_replace out_str trailing_space_regex ''\<newline>'', e)))"

partial_function (option) matrix_constructor_linting_x ::
  "string \<Rightarrow> ('x, 'e) throwing_report \<Rightarrow> 'e \<Rightarrow> ('x + 'e) option" where
  "matrix_constructor_linting_x str report_error e =
     (case regex_search str matrix_regex of
        None \<Rightarrow> Some (Inr e)
      | Some match \<Rightarrow>
          (case report_error str match matrix_msg e of
             Inl x \<Rightarrow> Some (Inl x)
           | Inr e' \<Rightarrow> matrix_constructor_linting_x (m_suffix match) report_error e'))"

declare matrix_constructor_linting_x.simps [code]

partial_function (option) array_constructor_linting_x ::
  "string \<Rightarrow> ('x, 'e) throwing_report \<Rightarrow> 'e \<Rightarrow> ('x + 'e) option" where
  "array_constructor_linting_x str report_error e =
     (case regex_search str array_regex of
        None \<Rightarrow> Some (Inr e)
      | Some match \<Rightarrow>
          (case report_error str match array_msg e of
             Inl x \<Rightarrow> Some (Inl x)
           | Inr e' \<Rightarrow> array_constructor_linting_x (m_suffix match) report_error e'))"

declare array_constructor_linting_x.simps [code]

text \<open>
  \<open>process\<close> with such a callback: \<open>Inl (x, p)\<close> when the exception \<open>x\<close> leaves it, with
  the instance as it is at that moment, and \<open>Inr\<close> with the returned text else.
\<close>

definition process_x ::
  "Preprocessor \<Rightarrow> string \<Rightarrow> bool \<Rightarrow> bool \<Rightarrow> bool \<Rightarrow> ('x, 'e) throwing_report \<Rightarrow> 'e
     \<Rightarrow> ('x \<times> Preprocessor + string \<times> Preprocessor \<times> 'e) option" where
  "process_x p str do_linting do_string_mutation do_include_mutation report_error e =
     (case remove_comments_x str report_error e of
        Inl x \<Rightarrow> Some (Inl (x, p))
      | Inr (str1, e1) \<Rightarrow>
          do {
            p1 \<leftarrow> threadgroup_variable_parsing p str1;
            r2 \<leftarrow> matrix_constructor_linting_x str1 report_error e1;
            (case r2 of
               Inl x \<Rightarrow> Some (Inl (x, p1))
             | Inr e2 \<Rightarrow>
                 do {
                   r3 \<leftarrow> array_constructor_linting_x str1 report_error e2;
                   (case r3 of
                      Inl x \<Rightarrow> Some (Inl (x, p1))
                    | Inr e3 \<Rightarrow>
                        (let str2 = preprocessor_directive_mutation str1;
                             str3 = argument_decorator_macro_injection str2;
                             str4 = array_constructor_macro_injection str3
                         in Some (Inr (str4 @ suffix' p1, p1, e3))))
                 })
          })"

section \<open>Notions the properties are stated with\<close>

text \<open>
  The lines of a text, without their newline characters: the character at line \<open>l\<close>,
  column \<open>c\<close> of \<open>s\<close> is \<open>split_lines s ! l ! c\<close>.
\<close>

fun split_lines :: "string \<Rightarrow> string list" where
  "split_lines [] = [[]]"
| "split_lines (c # cs) =
     (if c = CHR ''\<newline>'' then [] # split_lines cs
      else (case split_lines cs of [] \<Rightarrow> [[c]] | l # ls \<Rightarrow> (c # l) # ls))"

text \<open>The text a \<open>#define\<close> line of the output gives to a macro: the rest of that line.\<close>

definition macro_definition :: "string \<Rightarrow> string \<Rightarrow> string option" where
  "macro_definition nm text =
     (case filter (prefix (''#define '' @ nm @ '' '')) (split_lines text) of
        [] \<Rightarrow> None
      | l # ls \<Rightarrow> Some (drop (length (''#define '' @ nm @ '' '')) (last (l # ls))))"

definition macro_definitions :: "string \<Rightarrow> string option list" where
  "macro_definitions text =
     map (\<lambda>nm. macro_definition nm text)
       [''MSL_SHARED_VARS_ARGS'', ''MSL_SHARED_VARS_ASSIGN'',
        ''MSL_SHARED_VARS_DECLARE'', ''MSL_SHARED_VARS_PASS'']"

text \<open>A callback that keeps the arguments of every call, in the order of the calls.\<close>

definition log_report :: "(string \<times> smatch \<times> string) list report" where
  "log_report str match msg log = log @ [(str, match, msg)]"

text \<open>
  The pairs of searched text and match that a loop
  \<open>for (match; regex_search(str, match, regex); str = match.suffix())\<close> goes through
  from the text \<open>s\<close>: each match is searched in the suffix of the one before.
\<close>

fun match_chain :: "re list \<Rightarrow> string \<Rightarrow> (string \<times> smatch) list \<Rightarrow> bool" where
  "match_chain r s [] = (regex_search s r = None)"
| "match_chain r s ((t, m) # ms) =
     (t = s \<and> regex_search s r = Some m \<and> match_chain r (m_suffix m) ms)"

text \<open>The entry that \<open>threadgroup_variable_parsing\<close> appends for a match.\<close>

definition to_shared_var :: "smatch \<Rightarrow> SharedVar" where
  "to_shared_var m = \<lparr>type = m_str m 1, name = m_str m 2, array = m_str m 3\<rparr>"

text \<open>The three mutating passes, in the order of \<open>process\<close>.\<close>

definition mutating_passes :: "string \<Rightarrow> string" where
  "mutating_passes str =
     array_constructor_macro_injection
       (argument_decorator_macro_injection (preprocessor_directive_mutation str))"

text \<open>
  After a \<open>#\<close>: white space, then one of the two keywords of \<open>directive_regex\<close>.
\<close>

definition dir_start :: "string \<Rightarrow> bool" where
  "dir_start t = (prefix ''include'' (dropWhile is_space t)
                  \<or> prefix ''pragma once'' (dropWhile is_space t))"

text \<open>The blank, the one character the last step of \<open>remove_comments\<close> removes.\<close>

abbreviation (input) blank :: "char \<Rightarrow> bool" where
  "blank \<equiv> (\<lambda>c. c = CHR '' '')"

text \<open>
  A macro list as section 4.8 of the specification words it: one entry for each
  declaration, in the order of the list, the first after the character \<open>c\<close> and each
  later one after a comma.
\<close>

fun sep_list :: "char \<Rightarrow> (SharedVar \<Rightarrow> string) \<Rightarrow> SharedVar list \<Rightarrow> string" where
  "sep_list c f [] = []"
| "sep_list c f (v # vs) = c # f v @ concat (map (\<lambda>w. CHR '','' # f w) vs)"

text \<open>
  The suffix for a list of declarations, written out: nothing for the empty list, and
  else the four \<open>#undef\<close> lines and the four \<open>#define\<close> lines with their macro lists.
\<close>

definition macro_suffix :: "SharedVar list \<Rightarrow> string" where
  "macro_suffix vs =
     (if vs = [] then []
      else
        ''#undef MSL_SHARED_VARS_ARGS\<newline>'' @
        ''#undef MSL_SHARED_VARS_ASSIGN\<newline>'' @
        ''#undef MSL_SHARED_VARS_DECLARE\<newline>'' @
        ''#undef MSL_SHARED_VARS_PASS\<newline>'' @
        ''#define MSL_SHARED_VARS_ARGS '' @
          sep_list CHR '' '' (\<lambda>v. ''threadgroup '' @ type v @ ''(&_'' @ name v @ '')'' @ array v) vs @
          ''\<newline>'' @
        ''#define MSL_SHARED_VARS_ASSIGN '' @
          sep_list CHR '':'' (\<lambda>v. name v @ ''(_'' @ name v @ '')'') vs @ ''\<newline>'' @
        ''#define MSL_SHARED_VARS_DECLARE '' @
          concat (map (\<lambda>v. ''threadgroup '' @ type v @ '' '' @ name v @ array v @ '';'') vs) @
          ''\<newline>'' @
        ''#define MSL_SHARED_VARS_PASS ('' @ sep_list CHR '' '' name vs @ '')\<newline>'')"

text \<open>
  The block comments of a text, as section 4.1 of the specification words them: from
  the first \<open>/*\<close> at or after \<open>from\<close> to the next \<open>*/\<close> after it, both markers included,
  and on from there. Each comment is the pair of its first index and the index after
  its last. The flag says that a \<open>/*\<close> was left without its \<open>*/\<close>; the scan stops there.
\<close>

function block_scan :: "string \<Rightarrow> nat \<Rightarrow> (nat \<times> nat) list \<times> bool" where
  "block_scan s from =
     (case str_find s ''/*'' from of
        None \<Rightarrow> ([], False)
      | Some a \<Rightarrow>
          (case str_find s ''*/'' (a + 2) of
             None \<Rightarrow> ([], True)
           | Some z \<Rightarrow> ((a, z + 2) # fst (block_scan s (z + 2)), snd (block_scan s (z + 2)))))"
  by pat_completeness auto
termination
  by (relation "measure (\<lambda>(s, from). length s - from)")
     (auto dest!: str_find_bounds)

declare block_scan.simps [simp del]

text \<open>
  The line comments of a text: from the first \<open>//\<close> at or after \<open>from\<close> to the next
  newline, the newline not included, and on from that newline. The flag says that a
  \<open>//\<close> was left without a newline after it.
\<close>

function line_scan :: "string \<Rightarrow> nat \<Rightarrow> (nat \<times> nat) list \<times> bool" where
  "line_scan s from =
     (case str_find s ''//'' from of
        None \<Rightarrow> ([], False)
      | Some a \<Rightarrow>
          (case str_find s ''\<newline>'' (a + 2) of
             None \<Rightarrow> ([], True)
           | Some z \<Rightarrow> ((a, z) # fst (line_scan s z), snd (line_scan s z))))"
  by pat_completeness auto
termination
  by (relation "measure (\<lambda>(s, from). length s - from)")
     (auto dest!: str_find_bounds)

declare line_scan.simps [simp del]

definition covered :: "(nat \<times> nat) list \<Rightarrow> nat \<Rightarrow> bool" where
  "covered rs i = list_ex (\<lambda>(a, b). a \<le> i \<and> i < b) rs"

text \<open>
  The text with the characters of the comments \<open>rs\<close> replaced by blanks, each at its
  index; a newline stays.
\<close>

definition blank_out :: "(nat \<times> nat) list \<Rightarrow> string \<Rightarrow> string" where
  "blank_out rs s =
     map (\<lambda>i. if covered rs i \<and> s ! i \<noteq> CHR ''\<newline>'' then CHR '' '' else s ! i) [0..<length s]"

text \<open>
  The text after both scans: block comments first, and then the line comments of what
  is left of the text, unless a block comment was left open.
\<close>

definition comments_blanked :: "string \<Rightarrow> string" where
  "comments_blanked s =
     (let b1 = blank_out (fst (block_scan s 0)) s in
      if snd (block_scan s 0) then b1 else blank_out (fst (line_scan b1 0)) b1)"

definition malformed :: "string \<Rightarrow> bool" where
  "malformed s =
     (snd (block_scan s 0) \<or> snd (line_scan (blank_out (fst (block_scan s 0)) s) 0))"

text \<open>Index \<open>i\<close> of \<open>s\<close> lies in a comment that the scans found.\<close>

definition in_comment :: "string \<Rightarrow> nat \<Rightarrow> bool" where
  "in_comment s i =
     (covered (fst (block_scan s 0)) i
      \<or> (\<not> snd (block_scan s 0)
          \<and> covered (fst (line_scan (blank_out (fst (block_scan s 0)) s) 0)) i))"

text \<open>
  The text without the blanks that stand right before a newline: every line but the
  last loses the blanks at its end.
\<close>

fun join_lines :: "string list \<Rightarrow> string" where
  "join_lines [] = []"
| "join_lines [l] = l"
| "join_lines (l # l' # ls) = l @ CHR ''\<newline>'' # join_lines (l' # ls)"

definition strip_end :: "string \<Rightarrow> string" where
  "strip_end l = rev (dropWhile (\<lambda>c. c = CHR '' '') (rev l))"

fun strip_ended :: "string list \<Rightarrow> string list" where
  "strip_ended [] = []"
| "strip_ended [l] = [l]"
| "strip_ended (l # l' # ls) = strip_end l # strip_ended (l' # ls)"

definition strip_lines :: "string \<Rightarrow> string" where
  "strip_lines s = join_lines (strip_ended (split_lines s))"

section \<open>Facts about the matcher and the search loops\<close>

lemma re_match_bounds:
  "re_match nn k s pos caps = Some (e, c) \<Longrightarrow> pos \<le> e \<and> e \<le> pos + length s"
  "re_alts nn as k s pos caps = Some (e, c) \<Longrightarrow> pos \<le> e \<and> e \<le> pos + length s"
  by (induction nn k s pos caps and nn as k s pos caps rule: re_match_re_alts.induct)
     (auto split: if_splits option.splits)

lemma search_from_decomp:
  "search_from r pre s = Some m \<Longrightarrow> pre @ s = m_prefix m @ m_matched m @ m_suffix m"
  by (induction r pre s rule: search_from.induct)
     (auto simp: mk_smatch_def split: option.splits)

lemma regex_search_decomp:
  "regex_search s r = Some m \<Longrightarrow> s = m_prefix m @ m_matched m @ m_suffix m"
  using search_from_decomp[of r "[]" s m] by (simp add: regex_search_def)

lemma search_from_not_empty:
  "search_from r pre s = Some m \<Longrightarrow> \<not> m_empty m"
  by (induction r pre s rule: search_from.induct)
     (auto simp: mk_smatch_def split: option.splits)

text \<open>A match of an expression that starts with a one-character node is not empty.\<close>

lemma search_from_sym_matched:
  "search_from (Sym c # k) pre s = Some m \<Longrightarrow> m_matched m \<noteq> []"
proof (induction "Sym c # k" pre s rule: search_from.induct)
  case (1 pre)
  then show ?case by simp
next
  case (2 pre x xs)
  show ?case
  proof (cases "re_match False (Sym c # k) (x # xs) 0 []")
    case None
    with 2 show ?thesis by simp
  next
    case (Some ec)
    obtain e caps where ec: "ec = (e, caps)" by (cases ec)
    from Some ec have "re_match False k xs (Suc 0) [] = Some (e, caps)"
      by (auto split: if_splits)
    from re_match_bounds(1)[OF this] have "0 < e" by simp
    moreover from 2(2) Some ec have "m = mk_smatch pre (x # xs) e caps" by simp
    ultimately show ?thesis by (cases e) (auto simp: mk_smatch_def)
  qed
qed

lemma regex_search_sym_shorter:
  assumes "regex_search s (Sym c # k) = Some m"
  shows "length (m_suffix m) < length s"
  using assms search_from_suffix_less[of "Sym c # k" "[]" s m] search_from_sym_matched[of c k "[]" s m]
  by (simp add: regex_search_def)

lemma match_chain_exists: "\<exists>ms. match_chain (Sym c # k) s ms"
proof (induction "length s" arbitrary: s rule: less_induct)
  case less
  show ?case
  proof (cases "regex_search s (Sym c # k)")
    case None
    then have "match_chain (Sym c # k) s []" by simp
    then show ?thesis ..
  next
    case (Some m)
    from regex_search_sym_shorter[OF Some] less obtain ms
      where "match_chain (Sym c # k) (m_suffix m) ms" by blast
    with Some have "match_chain (Sym c # k) s ((s, m) # ms)" by simp
    then show ?thesis ..
  qed
qed

lemma match_chain_unique: "match_chain r s ms \<Longrightarrow> match_chain r s ms' \<Longrightarrow> ms = ms'"
proof (induction ms arbitrary: s ms')
  case Nil
  then show ?case by (cases ms') auto
next
  case (Cons a ms)
  then show ?case by (cases ms'; cases a) auto
qed

lemma shared_regex_sym: "\<exists>c k. shared_regex = Sym c # k"
  by (simp add: shared_regex_def lit_def)

lemma matrix_regex_sym: "\<exists>c k. matrix_regex = Sym c # k"
  by (simp add: matrix_regex_def plus_def)

lemma array_regex_sym: "\<exists>c k. array_regex = Sym c # k"
  by (simp add: array_regex_def lit_def)

lemma threadgroup_variable_parsing_chain:
  "match_chain shared_regex s ms \<Longrightarrow>
   threadgroup_variable_parsing p s =
     Some (p\<lparr>shared_vars := shared_vars p @ map (\<lambda>tm. to_shared_var (snd tm)) ms\<rparr>)"
proof (induction ms arbitrary: s p)
  case Nil
  then show ?case by (subst threadgroup_variable_parsing.simps) simp
next
  case (Cons a ms)
  obtain t m where a: "a = (t, m)" by (cases a)
  with Cons.prems have m: "regex_search s shared_regex = Some m"
    and ch: "match_chain shared_regex (m_suffix m) ms" by auto
  show ?case
    by (subst threadgroup_variable_parsing.simps)
       (simp add: m a Cons.IH[OF ch] to_shared_var_def)
qed

lemma matrix_constructor_linting_chain:
  "match_chain matrix_regex s ms \<Longrightarrow>
   matrix_constructor_linting s report_error e =
     Some (fold (\<lambda>tm. report_error (fst tm) (snd tm) matrix_msg) ms e)"
proof (induction ms arbitrary: s e)
  case Nil
  then show ?case by (subst matrix_constructor_linting.simps) simp
next
  case (Cons a ms)
  obtain t m where a: "a = (t, m)" by (cases a)
  with Cons.prems have m: "regex_search s matrix_regex = Some m" and t: "t = s"
    and ch: "match_chain matrix_regex (m_suffix m) ms" by auto
  show ?case
    by (subst matrix_constructor_linting.simps) (simp add: m a t Cons.IH[OF ch])
qed

lemma array_constructor_linting_chain:
  "match_chain array_regex s ms \<Longrightarrow>
   array_constructor_linting s report_error e =
     Some (fold (\<lambda>tm. report_error (fst tm) (snd tm) array_msg) ms e)"
proof (induction ms arbitrary: s e)
  case Nil
  then show ?case by (subst array_constructor_linting.simps) simp
next
  case (Cons a ms)
  obtain t m where a: "a = (t, m)" by (cases a)
  with Cons.prems have m: "regex_search s array_regex = Some m" and t: "t = s"
    and ch: "match_chain array_regex (m_suffix m) ms" by auto
  show ?case
    by (subst array_constructor_linting.simps) (simp add: m a t Cons.IH[OF ch])
qed

lemma shared_chain_exists: "\<exists>ms. match_chain shared_regex s ms"
  using shared_regex_sym match_chain_exists by metis

lemma matrix_chain_exists: "\<exists>ms. match_chain matrix_regex s ms"
  using matrix_regex_sym match_chain_exists by metis

lemma array_chain_exists: "\<exists>ms. match_chain array_regex s ms"
  using array_regex_sym match_chain_exists by metis

section \<open>The pipeline as a whole\<close>

lemma remove_comments_text:
  "fst (remove_comments s report_error e) = fst (remove_comments s report_error' e')"
  by (simp add: remove_comments_def split: prod.splits option.splits)

lemma process_chain:
  assumes "remove_comments s report_error e = (str1, e1)"
    and "match_chain shared_regex str1 vs"
    and "match_chain matrix_regex str1 ms"
    and "match_chain array_regex str1 as"
  shows "process p s b1 b2 b3 report_error e =
     Some (mutating_passes str1 @
             suffix' (p\<lparr>shared_vars := shared_vars p @ map (\<lambda>tm. to_shared_var (snd tm)) vs\<rparr>),
           p\<lparr>shared_vars := shared_vars p @ map (\<lambda>tm. to_shared_var (snd tm)) vs\<rparr>,
           fold (\<lambda>tm. report_error (fst tm) (snd tm) array_msg) as
             (fold (\<lambda>tm. report_error (fst tm) (snd tm) matrix_msg) ms e1))"
  by (simp add: process_def assms(1) mutating_passes_def
        threadgroup_variable_parsing_chain[OF assms(2)]
        matrix_constructor_linting_chain[OF assms(3)]
        array_constructor_linting_chain[OF assms(4)])

lemma process_returns:
  "\<exists>vs ms as. match_chain shared_regex (fst (remove_comments s report_error e)) vs
     \<and> match_chain matrix_regex (fst (remove_comments s report_error e)) ms
     \<and> match_chain array_regex (fst (remove_comments s report_error e)) as
     \<and> process p s b1 b2 b3 report_error e =
         Some (mutating_passes (fst (remove_comments s report_error e)) @
                 suffix' (p\<lparr>shared_vars := shared_vars p @ map (\<lambda>tm. to_shared_var (snd tm)) vs\<rparr>),
               p\<lparr>shared_vars := shared_vars p @ map (\<lambda>tm. to_shared_var (snd tm)) vs\<rparr>,
               fold (\<lambda>tm. report_error (fst tm) (snd tm) array_msg) as
                 (fold (\<lambda>tm. report_error (fst tm) (snd tm) matrix_msg) ms
                    (snd (remove_comments s report_error e))))"
proof -
  obtain str1 e1 where rc: "remove_comments s report_error e = (str1, e1)"
    by (cases "remove_comments s report_error e")
  obtain vs ms as where ch: "match_chain shared_regex str1 vs"
    "match_chain matrix_regex str1 ms" "match_chain array_regex str1 as"
    using shared_chain_exists matrix_chain_exists array_chain_exists by blast
  from process_chain[OF rc ch] ch rc show ?thesis by auto
qed

lemma str_find_progress:
  "length pat' = n \<Longrightarrow>
   (case str_find out_str pat pos of
      None \<Rightarrow> True
    | Some start \<Rightarrow>
        (case str_find out_str pat' (start + 2) of
           None \<Rightarrow> True
         | Some end' \<Rightarrow> pos < end' \<and> end' + n \<le> length out_str))"
  by (auto split: option.splits dest!: str_find_bounds)

lemma regex_search_progress:
  "\<exists>c k. r = Sym c # k \<Longrightarrow>
   (case regex_search t r of None \<Rightarrow> True | Some m \<Rightarrow> length (m_suffix m) < length t)"
  by (auto split: option.splits dest: regex_search_sym_shorter)

text \<open>The suffix is the four macro lists of section 4.8, written out.\<close>

lemma suffix_loop_rest:
  "suffix_loop vs False (a, b, c, d) =
     (a @ concat (map (\<lambda>w. CHR '','' # (''threadgroup '' @ type w @ ''(&_'' @ name w @ '')'' @ array w)) vs),
      b @ concat (map (\<lambda>w. CHR '','' # (name w @ ''(_'' @ name w @ '')'')) vs),
      c @ concat (map (\<lambda>v. ''threadgroup '' @ type v @ '' '' @ name v @ array v @ '';'') vs),
      d @ concat (map (\<lambda>w. CHR '','' # name w) vs))"
  by (induction vs arbitrary: a b c d) (simp_all add: Let_def)

lemma suffix_macro_suffix: "suffix' p = macro_suffix (shared_vars p)"
proof (cases "shared_vars p")
  case Nil
  then show ?thesis by (simp add: suffix'_def macro_suffix_def)
next
  case (Cons v vs)
  then show ?thesis
    by (simp add: suffix'_def macro_suffix_def suffix_loop_rest Let_def)
qed

text \<open>
  C2: nothing empties \<open>shared_vars_\<close> between two calls. When one instance, whatever
  its list is, processes \<open>s1\<close> and then \<open>s2\<close>, the first call appends to the list one
  declaration for each match of \<open>shared_regex\<close> in the stripped \<open>s1\<close>, in their order,
  and the second those of the stripped \<open>s2\<close>; the second call returns the mutated text
  of \<open>s2\<close> followed by the four macro lists of the whole list: what the instance had,
  then the declarations of \<open>s1\<close>, then those of \<open>s2\<close>. On a fresh instance, for the
  texts \<open>shared float a;\<close> and \<open>shared int b[4];\<close>, the four macros of the second
  result list \<open>a\<close> and then \<open>b\<close>.
\<close>

theorem shared_vars_accumulate:
  "(\<exists>vs1 vs2 t1 p1 e1 e2.
      match_chain shared_regex (fst (remove_comments s1 report_error e)) vs1
      \<and> match_chain shared_regex (fst (remove_comments s2 report_error' e')) vs2
      \<and> process p0 s1 b1 b2 b3 report_error e = Some (t1, p1, e1)
      \<and> shared_vars p1 = shared_vars p0 @
            map (\<lambda>tm. \<lparr>type = m_str (snd tm) 1, name = m_str (snd tm) 2, array = m_str (snd tm) 3\<rparr>) vs1
      \<and> process p1 s2 b4 b5 b6 report_error' e' =
            Some (mutating_passes (fst (remove_comments s2 report_error' e')) @
                    macro_suffix (shared_vars p1 @
                      map (\<lambda>tm. \<lparr>type = m_str (snd tm) 1, name = m_str (snd tm) 2,
                                   array = m_str (snd tm) 3\<rparr>) vs2),
                  p1\<lparr>shared_vars := shared_vars p1 @
                      map (\<lambda>tm. \<lparr>type = m_str (snd tm) 1, name = m_str (snd tm) 2,
                                   array = m_str (snd tm) 3\<rparr>) vs2\<rparr>,
                  e2))
   \<and> (case process' fresh ''shared float a;'' of
         None \<Rightarrow> None
       | Some (t1, p1) \<Rightarrow>
           map_option (\<lambda>(t2, p2). (shared_vars p2, macro_definitions t2))
             (process' p1 ''shared int b[4];''))
       = Some ([\<lparr>type = ''float'', name = ''a'', array = []\<rparr>,
                \<lparr>type = ''int'', name = ''b'', array = ''[4]''\<rparr>],
               [Some '' threadgroup float(&_a),threadgroup int(&_b)[4]'',
                Some '':a(_a),b(_b)'',
                Some ''threadgroup float a;threadgroup int b[4];'',
                Some ''( a,b)''])"
proof (rule conjI)
  obtain str1 e1 where rc1: "remove_comments s1 report_error e = (str1, e1)"
    by (cases "remove_comments s1 report_error e")
  obtain vs1 ms1 as1 where ch1: "match_chain shared_regex str1 vs1"
    "match_chain matrix_regex str1 ms1" "match_chain array_regex str1 as1"
    using shared_chain_exists matrix_chain_exists array_chain_exists by blast
  obtain str2 e2 where rc2: "remove_comments s2 report_error' e' = (str2, e2)"
    by (cases "remove_comments s2 report_error' e'")
  obtain vs2 ms2 as2 where ch2: "match_chain shared_regex str2 vs2"
    "match_chain matrix_regex str2 ms2" "match_chain array_regex str2 as2"
    using shared_chain_exists matrix_chain_exists array_chain_exists by blast
  let ?d = "\<lambda>tm. \<lparr>type = m_str (snd tm) 1, name = m_str (snd tm) 2, array = m_str (snd tm) 3\<rparr>"
  have d: "(\<lambda>tm. to_shared_var (snd tm)) = ?d" by (rule ext) (simp add: to_shared_var_def)
  let ?p1 = "p0\<lparr>shared_vars := shared_vars p0 @ map ?d vs1\<rparr>"
  note c1 = process_chain[OF rc1 ch1, of p0 b1 b2 b3, unfolded d suffix_macro_suffix]
    and c2 = process_chain[OF rc2 ch2, of ?p1 b4 b5 b6, unfolded d suffix_macro_suffix]
  have f1: "fst (remove_comments s1 report_error e) = str1" using rc1 by simp
  have f2: "fst (remove_comments s2 report_error' e') = str2" using rc2 by simp
  have s1: "shared_vars ?p1 = shared_vars p0 @ map ?d vs1" by simp
  from c2 have c2': "process ?p1 s2 b4 b5 b6 report_error' e' =
      Some (mutating_passes str2 @ macro_suffix (shared_vars ?p1 @ map ?d vs2),
            ?p1\<lparr>shared_vars := shared_vars ?p1 @ map ?d vs2\<rparr>,
            fold (\<lambda>tm. report_error' (fst tm) (snd tm) array_msg) as2
              (fold (\<lambda>tm. report_error' (fst tm) (snd tm) matrix_msg) ms2 e2))"
    by simp
  show "\<exists>vs1 vs2 t1 p1 e1 e2.
      match_chain shared_regex (fst (remove_comments s1 report_error e)) vs1
      \<and> match_chain shared_regex (fst (remove_comments s2 report_error' e')) vs2
      \<and> process p0 s1 b1 b2 b3 report_error e = Some (t1, p1, e1)
      \<and> shared_vars p1 = shared_vars p0 @ map ?d vs1
      \<and> process p1 s2 b4 b5 b6 report_error' e' =
            Some (mutating_passes (fst (remove_comments s2 report_error' e')) @
                    macro_suffix (shared_vars p1 @ map ?d vs2),
                  p1\<lparr>shared_vars := shared_vars p1 @ map ?d vs2\<rparr>,
                  e2)"
    unfolding f1 f2
    by (rule exI[of _ vs1], rule exI[of _ vs2], intro exI conjI)
       (rule ch1(1), rule ch2(1), rule c1, rule s1, rule c2')
next
  show "(case process' fresh ''shared float a;'' of
         None \<Rightarrow> None
       | Some (t1, p1) \<Rightarrow>
           map_option (\<lambda>(t2, p2). (shared_vars p2, macro_definitions t2))
             (process' p1 ''shared int b[4];''))
       = Some ([\<lparr>type = ''float'', name = ''a'', array = []\<rparr>,
                \<lparr>type = ''int'', name = ''b'', array = ''[4]''\<rparr>],
               [Some '' threadgroup float(&_a),threadgroup int(&_b)[4]'',
                Some '':a(_a),b(_b)'',
                Some ''threadgroup float a;threadgroup int b[4];'',
                Some ''( a,b)''])"
    by code_simp
qed


text \<open>What a callback that throws changes, and what it does not.\<close>

lemma remove_comments_x_Inr:
  "remove_comments_x s report_error e = Inr (t, e') \<Longrightarrow> t = fst (remove_comments s r e0)"
  by (auto simp: remove_comments_x_def remove_comments_def
           split: prod.splits option.splits sum.splits)

lemma remove_comments_x_Inl:
  "remove_comments_x s report_error e = Inl x \<Longrightarrow> \<exists>a m msg e1. report_error a m msg e1 = Inl x"
  by (auto simp: remove_comments_x_def split: prod.splits option.splits sum.splits)

lemma remove_comments_x_returning:
  "remove_comments_x s (\<lambda>a m msg e. Inr (f a m msg e)) e = Inr (remove_comments s f e)"
  by (auto simp: remove_comments_x_def remove_comments_def split: prod.splits option.splits)

lemma matrix_constructor_linting_x_chain:
  "match_chain matrix_regex s ms \<Longrightarrow>
   \<exists>out. matrix_constructor_linting_x s report_error e = Some out
     \<and> (\<forall>x. out = Inl x \<longrightarrow> (\<exists>a m msg e1. report_error a m msg e1 = Inl x))"
proof (induction ms arbitrary: s e)
  case Nil
  then show ?case by (subst matrix_constructor_linting_x.simps) simp
next
  case (Cons a ms)
  obtain t m where a: "a = (t, m)" by (cases a)
  with Cons.prems have m: "regex_search s matrix_regex = Some m"
    and ch: "match_chain matrix_regex (m_suffix m) ms" by auto
  show ?case
  proof (cases "report_error s m matrix_msg e")
    case (Inl x)
    then show ?thesis by (subst matrix_constructor_linting_x.simps) (auto simp: m)
  next
    case (Inr e')
    with Cons.IH[OF ch, of e'] show ?thesis
      by (subst matrix_constructor_linting_x.simps) (simp add: m)
  qed
qed

lemma array_constructor_linting_x_chain:
  "match_chain array_regex s ms \<Longrightarrow>
   \<exists>out. array_constructor_linting_x s report_error e = Some out
     \<and> (\<forall>x. out = Inl x \<longrightarrow> (\<exists>a m msg e1. report_error a m msg e1 = Inl x))"
proof (induction ms arbitrary: s e)
  case Nil
  then show ?case by (subst array_constructor_linting_x.simps) simp
next
  case (Cons a ms)
  obtain t m where a: "a = (t, m)" by (cases a)
  with Cons.prems have m: "regex_search s array_regex = Some m"
    and ch: "match_chain array_regex (m_suffix m) ms" by auto
  show ?case
  proof (cases "report_error s m array_msg e")
    case (Inl x)
    then show ?thesis by (subst array_constructor_linting_x.simps) (auto simp: m)
  next
    case (Inr e')
    with Cons.IH[OF ch, of e'] show ?thesis
      by (subst array_constructor_linting_x.simps) (simp add: m)
  qed
qed

lemma matrix_constructor_linting_x_returning:
  "match_chain matrix_regex s ms \<Longrightarrow>
   matrix_constructor_linting_x s (\<lambda>a m msg e. Inr (f a m msg e)) e =
     Some (Inr (fold (\<lambda>tm. f (fst tm) (snd tm) matrix_msg) ms e))"
proof (induction ms arbitrary: s e)
  case Nil
  then show ?case by (subst matrix_constructor_linting_x.simps) simp
next
  case (Cons a ms)
  obtain t m where a: "a = (t, m)" by (cases a)
  with Cons.prems have m: "regex_search s matrix_regex = Some m" and t: "t = s"
    and ch: "match_chain matrix_regex (m_suffix m) ms" by auto
  show ?case
    by (subst matrix_constructor_linting_x.simps) (simp add: m a t Cons.IH[OF ch])
qed

lemma array_constructor_linting_x_returning:
  "match_chain array_regex s ms \<Longrightarrow>
   array_constructor_linting_x s (\<lambda>a m msg e. Inr (f a m msg e)) e =
     Some (Inr (fold (\<lambda>tm. f (fst tm) (snd tm) array_msg) ms e))"
proof (induction ms arbitrary: s e)
  case Nil
  then show ?case by (subst array_constructor_linting_x.simps) simp
next
  case (Cons a ms)
  obtain t m where a: "a = (t, m)" by (cases a)
  with Cons.prems have m: "regex_search s array_regex = Some m" and t: "t = s"
    and ch: "match_chain array_regex (m_suffix m) ms" by auto
  show ?case
    by (subst array_constructor_linting_x.simps) (simp add: m a t Cons.IH[OF ch])
qed

text \<open>With a callback that returns from every call, \<open>process_x\<close> is \<open>process\<close>.\<close>

lemma process_x_returning:
  "process_x p s b1 b2 b3 (\<lambda>a m msg e. Inr (f a m msg e)) e =
     map_option Inr (process p s b1 b2 b3 f e)"
proof -
  obtain str1 e1 where rc: "remove_comments s f e = (str1, e1)"
    by (cases "remove_comments s f e")
  obtain vs ms as where ch: "match_chain shared_regex str1 vs"
    "match_chain matrix_regex str1 ms" "match_chain array_regex str1 as"
    using shared_chain_exists matrix_chain_exists array_chain_exists by blast
  show ?thesis
    by (simp add: process_x_def process_def remove_comments_x_returning rc
        threadgroup_variable_parsing_chain[OF ch(1)]
        matrix_constructor_linting_chain[OF ch(2)]
        array_constructor_linting_chain[OF ch(3)]
        matrix_constructor_linting_x_returning[OF ch(2)]
        array_constructor_linting_x_returning[OF ch(3)])
qed



section \<open>The diagnostics\<close>

lemma search_from_finds:
  "re_match False r b 0 [] \<noteq> None \<Longrightarrow> search_from r pre (a @ b) \<noteq> None"
proof (induction a arbitrary: pre)
  case Nil
  then show ?case by (cases b) (auto split: option.splits)
next
  case (Cons x a)
  then show ?case by (auto split: option.splits)
qed

lemma matrix_regex_mat4:
  "is_space w \<Longrightarrow> re_match False matrix_regex (w # ''mat4(other_mat)'' @ post) 0 [] \<noteq> None"
  by (simp add: matrix_regex_def plus_def lit_def is_space_def is_digit_def is_word_def
      split: option.splits)

lemma match_chain_nonempty:
  "match_chain r s ms \<Longrightarrow> regex_search s r \<noteq> None \<Longrightarrow> \<exists>m ms'. ms = m # ms'"
  by (cases ms) auto

text \<open>
  C7, as the claim states it, fails: the text \<open>m=mat4(other_mat);\<close> contains
  \<open>mat4(other_mat)\<close> and the callback is never called. The expression of the linter
  starts with \<open>\s+\<close>.
\<close>

theorem matrix_linting_counterexample:
  "map_option (\<lambda>(text, p, log). log)
     (process fresh ''m=mat4(other_mat);'' False False False log_report []) = Some []"
  by code_simp

text \<open>
  C7, amended: when the text that \<open>matrix_constructor_linting\<close> receives has
  \<open>mat4(other_mat)\<close> right after a white-space character, the callback is called at
  least once, each time with the message about the matrix constructor. The text that
  \<open>process\<close> returns is what the comment stripper and the three mutating passes make of
  the input, followed by the suffix: the linter has no part in it.
\<close>

theorem matrix_linting_after_space:
  assumes "is_space w"
  shows "(\<exists>m ms. \<forall>report_error e.
            matrix_constructor_linting (pre @ w # ''mat4(other_mat)'' @ post) report_error e =
              Some (fold (\<lambda>tm. report_error (fst tm) (snd tm) matrix_msg) (m # ms) e))
     \<and> (\<exists>p' e'. process p s b1 b2 b3 report_error' e0 =
            Some (mutating_passes (fst (remove_comments s report_error' e0)) @ suffix' p', p', e'))"
proof
  let ?str = "pre @ w # ''mat4(other_mat)'' @ post"
  obtain ms0 where ch: "match_chain matrix_regex ?str ms0"
    using matrix_chain_exists by blast
  from matrix_regex_mat4[OF assms, of post]
  have "search_from matrix_regex [] (pre @ (w # ''mat4(other_mat)'' @ post)) \<noteq> None"
    by (rule search_from_finds)
  then have "regex_search ?str matrix_regex \<noteq> None" by (simp add: regex_search_def)
  from match_chain_nonempty[OF ch this] obtain m ms where ms0: "ms0 = m # ms" by blast
  from ch ms0 have "\<forall>report_error e. matrix_constructor_linting ?str report_error e =
       Some (fold (\<lambda>tm. report_error (fst tm) (snd tm) matrix_msg) (m # ms) e)"
    by (simp only: matrix_constructor_linting_chain[OF ch]) simp
  then show "\<exists>m ms. \<forall>report_error e.
           matrix_constructor_linting ?str report_error e =
             Some (fold (\<lambda>tm. report_error (fst tm) (snd tm) matrix_msg) (m # ms) e)"
    by blast
next
  show "\<exists>p' e'. process p s b1 b2 b3 report_error' e0 =
           Some (mutating_passes (fst (remove_comments s report_error' e0)) @ suffix' p', p', e')"
    using process_returns[of s report_error' e0 p b1 b2 b3] by blast
qed

theorem matrix_linting_after_space_witness:
  "is_space CHR '' ''
   \<and> (\<exists>m ms. \<forall>report_error e.
         matrix_constructor_linting (''x ='' @ CHR '' '' # ''mat4(other_mat)'' @ '';'') report_error e =
           Some (fold (\<lambda>tm. report_error (fst tm) (snd tm) matrix_msg) (m # ms) (e :: nat)))"
proof -
  have sp: "is_space CHR '' ''" by (simp add: is_space_def)
  have "\<exists>m ms. \<forall>report_error e.
         matrix_constructor_linting (''x ='' @ CHR '' '' # ''mat4(other_mat)'' @ '';'') report_error e =
           Some (fold (\<lambda>tm. report_error (fst tm) (snd tm) matrix_msg) (m # ms) (e :: nat))"
    by (rule matrix_linting_after_space[OF sp, THEN conjunct1])
  with sp show ?thesis by (rule conjI)
qed

lemma match_chain_entries:
  "match_chain r s ms \<Longrightarrow>
   list_all (\<lambda>tm. suffix (fst tm) s \<and> \<not> m_empty (snd tm)
                  \<and> fst tm = m_prefix (snd tm) @ m_matched (snd tm) @ m_suffix (snd tm)) ms"
proof (induction ms arbitrary: s)
  case Nil
  then show ?case by simp
next
  case (Cons a ms)
  obtain t m where a: "a = (t, m)" by (cases a)
  with Cons.prems have t: "t = s" and m: "regex_search s r = Some m"
    and ch: "match_chain r (m_suffix m) ms" by auto
  from regex_search_decomp[OF m] have d: "s = m_prefix m @ m_matched m @ m_suffix m" .
  then have sf: "suffix (m_suffix m) s" by (metis suffixI append.assoc)
  from m have ne: "\<not> m_empty m" by (simp add: regex_search_def search_from_not_empty)
  from Cons.IH[OF ch] sf
  have "list_all (\<lambda>tm. suffix (fst tm) s \<and> \<not> m_empty (snd tm)
                  \<and> fst tm = m_prefix (snd tm) @ m_matched (snd tm) @ m_suffix (snd tm)) ms"
    by (auto simp: list_all_iff intro: suffix_order.trans)
  with a t d ne show ?case by simp
qed

lemma remove_comments_calls:
  "\<exists>cs. snd (remove_comments s report_error e) =
          fold (\<lambda>c. report_error (fst c) (fst (snd c)) (snd (snd c))) cs e
     \<and> (cs = [] \<or> cs = [(s, smatch_none, ''Malformed multi-line comment.'')]
         \<or> cs = [(s, smatch_none, ''Malformed single line comment, missing newline.'')])"
proof -
  let ?f = "\<lambda>c. report_error (fst c) (fst (snd c)) (snd (snd c))"
  obtain o1 r1 where m: "multi_line_loop s 0 = (o1, r1)" by (cases "multi_line_loop s 0")
  obtain o2 r2 where l: "single_line_loop o1 0 = (o2, r2)" by (cases "single_line_loop o1 0")
  show ?thesis
  proof (cases r1)
    case None
    with m have "snd (remove_comments s report_error e) =
        fold ?f [(s, smatch_none, ''Malformed multi-line comment.'')] e"
      by (simp add: remove_comments_def)
    then show ?thesis by blast
  next
    case (Some a)
    show ?thesis
    proof (cases r2)
      case None
      with m l Some have "snd (remove_comments s report_error e) =
          fold ?f [(s, smatch_none, ''Malformed single line comment, missing newline.'')] e"
        by (simp add: remove_comments_def)
      then show ?thesis by blast
    next
      case (Some b)
      with m l \<open>r1 = Some a\<close> have "snd (remove_comments s report_error e) = fold ?f [] e"
        by (simp add: remove_comments_def)
      then show ?thesis by blast
    qed
  qed
qed

text \<open>
  C4, as the claim states it, fails: with two array constructors in the text the
  second call of the callback does not get the whole comment-stripped source as its
  first argument.
\<close>

theorem diagnostics_whole_text_counterexample:
  "map_option
     (\<lambda>(text, p, log).
        list_all (\<lambda>(str, match, msg).
          str = fst (remove_comments ''x = float[1](0.0); y = float[1](1.0);'' log_report [])) log)
     (process fresh ''x = float[1](0.0); y = float[1](1.0);'' False False False log_report [])
   = Some False"
  by code_simp

text \<open>
  C4, amended: the calls of the callback during one \<open>process\<close> are, in this order:
  at most one call of the comment stripper, with the input text as it was given, an
  empty match and the message of the malformed comment; then the calls of the matrix
  linter and then those of the array linter, each with the text the match was searched
  in, the match and the message of the linter. For the first match of a linter that
  text is the whole comment-stripped source, for each later match it is what was left
  after the match before; it is the prefix, the match and the suffix of the match put
  together.
\<close>

theorem diagnostics_arguments:
  "\<exists>cs ms as text p'.
     process p s b1 b2 b3 report_error e =
       Some (text, p',
         fold (\<lambda>c. report_error (fst c) (fst (snd c)) (snd (snd c)))
           (cs @ map (\<lambda>tm. (fst tm, snd tm, matrix_msg)) ms
               @ map (\<lambda>tm. (fst tm, snd tm, array_msg)) as) e)
     \<and> (cs = [] \<or> cs = [(s, smatch_none, ''Malformed multi-line comment.'')]
         \<or> cs = [(s, smatch_none, ''Malformed single line comment, missing newline.'')])
     \<and> match_chain matrix_regex (fst (remove_comments s report_error e)) ms
     \<and> match_chain array_regex (fst (remove_comments s report_error e)) as
     \<and> list_all (\<lambda>tm. suffix (fst tm) (fst (remove_comments s report_error e))
                      \<and> \<not> m_empty (snd tm)
                      \<and> fst tm = m_prefix (snd tm) @ m_matched (snd tm) @ m_suffix (snd tm))
          (ms @ as)"
proof -
  let ?t = "fst (remove_comments s report_error e)"
  let ?f = "\<lambda>c. report_error (fst c) (fst (snd c)) (snd (snd c))"
  obtain vs ms as where "match_chain shared_regex ?t vs"
    and ms: "match_chain matrix_regex ?t ms"
    and as: "match_chain array_regex ?t as"
    and p: "process p s b1 b2 b3 report_error e =
         Some (mutating_passes ?t @
                 suffix' (p\<lparr>shared_vars := shared_vars p @ map (\<lambda>tm. to_shared_var (snd tm)) vs\<rparr>),
               p\<lparr>shared_vars := shared_vars p @ map (\<lambda>tm. to_shared_var (snd tm)) vs\<rparr>,
               fold (\<lambda>tm. report_error (fst tm) (snd tm) array_msg) as
                 (fold (\<lambda>tm. report_error (fst tm) (snd tm) matrix_msg) ms
                    (snd (remove_comments s report_error e))))"
    using process_returns[of s report_error e p b1 b2 b3] by blast
  obtain cs where cs: "snd (remove_comments s report_error e) = fold ?f cs e"
    and cs': "cs = [] \<or> cs = [(s, smatch_none, ''Malformed multi-line comment.'')]
         \<or> cs = [(s, smatch_none, ''Malformed single line comment, missing newline.'')]"
    using remove_comments_calls[of s report_error e] by blast
  have f: "fold (\<lambda>tm. report_error (fst tm) (snd tm) msg) xs x =
      fold ?f (map (\<lambda>tm. (fst tm, snd tm, msg)) xs) x" for msg xs x
    by (induction xs arbitrary: x) auto
  have e: "fold (\<lambda>tm. report_error (fst tm) (snd tm) array_msg) as
                 (fold (\<lambda>tm. report_error (fst tm) (snd tm) matrix_msg) ms
                    (snd (remove_comments s report_error e)))
      = fold ?f (cs @ map (\<lambda>tm. (fst tm, snd tm, matrix_msg)) ms
               @ map (\<lambda>tm. (fst tm, snd tm, array_msg)) as) e"
    by (simp add: f cs)
  from match_chain_entries[OF ms] match_chain_entries[OF as]
  have la: "list_all (\<lambda>tm. suffix (fst tm) ?t \<and> \<not> m_empty (snd tm)
                      \<and> fst tm = m_prefix (snd tm) @ m_matched (snd tm) @ m_suffix (snd tm))
          (ms @ as)" by simp
  from p e have p': "process p s b1 b2 b3 report_error e =
       Some (mutating_passes ?t @
               suffix' (p\<lparr>shared_vars := shared_vars p @ map (\<lambda>tm. to_shared_var (snd tm)) vs\<rparr>),
             p\<lparr>shared_vars := shared_vars p @ map (\<lambda>tm. to_shared_var (snd tm)) vs\<rparr>,
             fold ?f (cs @ map (\<lambda>tm. (fst tm, snd tm, matrix_msg)) ms
               @ map (\<lambda>tm. (fst tm, snd tm, array_msg)) as) e)"
    by simp
  show ?thesis
    by (rule exI[of _ cs], rule exI[of _ ms], rule exI[of _ as], intro exI conjI)
       (rule p', rule cs', rule ms, rule as, rule la)
qed

section \<open>Leftmost matches and replacement\<close>

lemma search_from_None_iff:
  "search_from r pre s = None \<longleftrightarrow> (\<forall>b. suffix b s \<longrightarrow> re_match False r b 0 [] = None)"
proof (induction r pre s rule: search_from.induct)
  case (1 r pre)
  then show ?case by (auto split: option.splits)
next
  case (2 r pre x xs)
  show ?case
  proof (cases "re_match False r (x # xs) 0 []")
    case None
    with 2 show ?thesis by (auto simp: suffix_Cons)
  next
    case (Some a)
    then show ?thesis by (auto split: prod.splits)
  qed
qed

lemma search_from_SomeD:
  "search_from r pre s = Some m \<Longrightarrow>
   \<exists>a b e caps. s = a @ b \<and> re_match False r b 0 [] = Some (e, caps)
      \<and> m = mk_smatch (pre @ a) b e caps
      \<and> (\<forall>a2. suffix a2 a \<and> a2 \<noteq> [] \<longrightarrow> re_match False r (a2 @ b) 0 [] = None)"
proof (induction r pre s rule: search_from.induct)
  case (1 r pre)
  then show ?case by (auto split: option.splits)
next
  case (2 r pre x xs)
  show ?case
  proof (cases "re_match False r (x # xs) 0 []")
    case None
    with 2 obtain a b e caps where *: "xs = a @ b" "re_match False r b 0 [] = Some (e, caps)"
      "m = mk_smatch ((pre @ [x]) @ a) b e caps"
      "\<forall>a2. suffix a2 a \<and> a2 \<noteq> [] \<longrightarrow> re_match False r (a2 @ b) 0 [] = None"
      by fastforce
    have "\<forall>a2. suffix a2 (x # a) \<and> a2 \<noteq> [] \<longrightarrow> re_match False r (a2 @ b) 0 [] = None"
      using * None by (auto simp: suffix_Cons)
    with * show ?thesis
      by (intro exI[of _ "x # a"] exI[of _ b] exI[of _ e] exI[of _ caps]) simp
  next
    case (Some ec)
    obtain e caps where "ec = (e, caps)" by (cases ec)
    with Some 2(2) show ?thesis
      by (intro exI[of _ "[]"] exI[of _ "x # xs"] exI[of _ e] exI[of _ caps]) simp
  qed
qed

lemma regex_replace_from_nonempty:
  assumes "\<And>pre s m. search_from r pre s = Some m \<Longrightarrow> m_matched m \<noteq> []"
  shows "regex_replace_from r fmt False s =
     (case search_from r [] s of
        None \<Rightarrow> s
      | Some m \<Rightarrow> m_prefix m @ format m fmt @ regex_replace_from r fmt False (m_suffix m))"
  by (subst regex_replace_from.simps)
     (auto simp: iterator_next_def split: option.splits dest: assms)

section \<open>The directive masker\<close>

lemma lit_match:
  "re_match nn (lit w @ k) s pos caps =
     (if prefix w s then re_match nn k (drop (length w) s) (pos + length w) caps else None)"
proof (induction w arbitrary: s pos)
  case Nil
  then show ?case by (simp add: lit_def)
next
  case (Cons c w)
  have l: "lit (c # w) = Sym (Is (AChr c)) # lit w" by (simp add: lit_def)
  show ?case
  proof (cases s)
    case Nil
    then show ?thesis by (simp add: l)
  next
    case (Cons x xs)
    then show ?thesis using Cons.IH[of xs "Suc pos"] by (auto simp: l)
  qed
qed

lemma rep_greedy_skip:
  assumes "\<And>x xs p cs. cclass_match c x \<Longrightarrow> re_match nn k (x # xs) p cs = None"
  shows "re_match nn (Rep c True # k) s pos caps =
     re_match nn k (dropWhile (cclass_match c) s) (pos + length (takeWhile (cclass_match c) s)) caps"
proof (induction s arbitrary: pos)
  case Nil
  then show ?case by simp
next
  case (Cons x xs)
  then show ?case by (auto simp: assms split: option.splits)
qed

lemma directive_match:
  "re_match False directive_regex s 0 [] =
     (case s of
        [] \<Rightarrow> None
      | x # t \<Rightarrow>
          if x = CHR ''#'' then
            (let n = length (takeWhile is_space t); r = dropWhile is_space t in
             if prefix ''include'' r then Some (Suc n + 7, [(1, Suc n, Suc n + 7)])
             else if prefix ''pragma once'' r then Some (Suc n + 11, [(1, Suc n, Suc n + 11)])
             else None)
          else None)"
proof (cases s)
  case Nil
  then show ?thesis by (simp add: directive_regex_def lit_def)
next
  case (Cons x t)
  let ?k = "[Grp 1 [Alt [lit ''include'', lit ''pragma once'']]]"
  have k: "re_match False ?k r p cs =
      (if prefix ''include'' r then Some (p + 7, (1, p, p + 7) # cs)
       else if prefix ''pragma once'' r then Some (p + 11, (1, p, p + 11) # cs)
       else None)" for r p cs
    by (simp add: lit_match)
  have sp: "cclass_match (Is ASpace) y \<Longrightarrow> re_match False ?k (y # ys) p cs = None" for y ys p cs
    by (subst k) (auto simp: is_space_def)
  have cm: "cclass_match (Is ASpace) = is_space" by (rule ext) simp
  have skip: "re_match False (Rep (Is ASpace) True # ?k) t (Suc 0) [] =
      re_match False ?k (dropWhile is_space t) (Suc 0 + length (takeWhile is_space t)) []"
    using rep_greedy_skip[of "Is ASpace" False ?k t "Suc 0" "[]", OF sp] by (simp add: cm)
  have e1: "re_match False directive_regex (x # t) 0 [] =
      (if x = CHR ''#'' then re_match False (Rep (Is ASpace) True # ?k) t (Suc 0) [] else None)"
    by (simp add: directive_regex_def lit_def)
  show ?thesis unfolding Cons e1 skip k by (simp add: Let_def)
qed

lemma directive_None_iff:
  "re_match False directive_regex b 0 [] = None \<longleftrightarrow> \<not> (\<exists>t. b = CHR ''#'' # t \<and> dir_start t)"
  by (auto simp: directive_match Let_def dir_start_def split: list.splits)

lemma prefix_append_notin:
  "prefix p (v @ x # w) \<Longrightarrow> x \<notin> set p \<Longrightarrow> prefix p v"
  by (auto simp: prefix_append prefix_Cons)

lemma dir_start_local:
  assumes "dir_start (u @ CHR ''/'' # w)"
  shows "dir_start (u @ v)"
proof (cases "\<forall>x\<in>set u. is_space x")
  case True
  then have "dropWhile is_space (u @ CHR ''/'' # w) = CHR ''/'' # w"
    by (simp add: dropWhile_append2 is_space_def)
  with assms show ?thesis by (simp add: dir_start_def)
next
  case False
  then obtain x where x: "x \<in> set u" "\<not> is_space x" by blast
  then have d: "dropWhile is_space (u @ z) = dropWhile is_space u @ z" for z
    by (rule dropWhile_append1)
  from assms have "prefix ''include'' (dropWhile is_space u @ CHR ''/'' # w)
      \<or> prefix ''pragma once'' (dropWhile is_space u @ CHR ''/'' # w)"
    by (simp add: dir_start_def d)
  then have "prefix ''include'' (dropWhile is_space u) \<or> prefix ''pragma once'' (dropWhile is_space u)"
    by (auto dest!: prefix_append_notin)
  then show ?thesis by (auto simp: dir_start_def d)
qed

lemma directive_search_SomeD:
  assumes "search_from directive_regex pre s = Some m"
  shows "\<exists>a t kw. s = a @ CHR ''#'' # t \<and> (kw = ''include'' \<or> kw = ''pragma once'')
           \<and> m_prefix m = pre @ a \<and> format m ''//$1'' = ''//'' @ kw
           \<and> m_suffix m = drop (length kw) (dropWhile is_space t)
           \<and> (\<forall>a2. suffix a2 a \<and> a2 \<noteq> [] \<longrightarrow> re_match False directive_regex (a2 @ CHR ''#'' # t) 0 [] = None)"
proof -
  from search_from_SomeD[OF assms] obtain a b e caps where
    s: "s = a @ b" and r: "re_match False directive_regex b 0 [] = Some (e, caps)"
    and m: "m = mk_smatch (pre @ a) b e caps"
    and l: "\<forall>a2. suffix a2 a \<and> a2 \<noteq> [] \<longrightarrow> re_match False directive_regex (a2 @ b) 0 [] = None"
    by blast
  from r obtain t where b: "b = CHR ''#'' # t"
    by (auto simp: directive_match split: list.splits if_splits)
  let ?n = "length (takeWhile is_space t)"
  let ?r = "dropWhile is_space t"
  from r b have "(prefix ''include'' ?r \<and> e = Suc ?n + 7 \<and> caps = [(1, Suc ?n, Suc ?n + 7)])
      \<or> (prefix ''pragma once'' ?r \<and> e = Suc ?n + 11 \<and> caps = [(1, Suc ?n, Suc ?n + 11)])"
    by (auto simp: directive_match Let_def split: if_splits)
  then have "\<exists>kw. (kw = ''include'' \<or> kw = ''pragma once'') \<and> prefix kw ?r
      \<and> e = Suc ?n + length kw \<and> caps = [(1, Suc ?n, Suc ?n + length kw)]"
  proof (elim disjE)
    assume "prefix ''include'' ?r \<and> e = Suc ?n + 7 \<and> caps = [(1, Suc ?n, Suc ?n + 7)]"
    then show ?thesis by (intro exI[of _ "''include''"]) simp
  next
    assume "prefix ''pragma once'' ?r \<and> e = Suc ?n + 11 \<and> caps = [(1, Suc ?n, Suc ?n + 11)]"
    then show ?thesis by (intro exI[of _ "''pragma once''"]) simp
  qed
  then obtain kw where kw: "kw = ''include'' \<or> kw = ''pragma once''" "prefix kw ?r"
    and e: "e = Suc ?n + length kw" and caps: "caps = [(1, Suc ?n, Suc ?n + length kw)]"
    by blast
  have dr: "drop ?n t = ?r" by (simp add: dropWhile_eq_drop)
  from kw(2) have tk: "take (length kw) ?r = kw" by (auto simp: prefix_def)
  have g: "m_str m (Suc 0) = kw"
    by (simp add: m_str_def m mk_smatch_def caps b dr tk)
  have f: "format m ''//$1'' = ''//'' @ kw"
    by (simp add: g is_digit_def digit_val_def)
  have sf: "m_suffix m = drop (length kw) ?r"
    by (simp add: m mk_smatch_def e b dr[symmetric] add.commute)
  have c1: "s = a @ CHR ''#'' # t" using s b by simp
  have c3: "m_prefix m = pre @ a" by (simp add: m mk_smatch_def)
  have c6: "\<forall>a2. suffix a2 a \<and> a2 \<noteq> [] \<longrightarrow>
      re_match False directive_regex (a2 @ CHR ''#'' # t) 0 [] = None"
    using l b by simp
  show ?thesis
    by (intro exI[of _ a] exI[of _ t] exI[of _ kw] conjI) (rule c1 kw(1) c3 f sf c6)+
qed

lemma directive_nonempty:
  "search_from directive_regex pre s = Some m \<Longrightarrow> m_matched m \<noteq> []"
  using search_from_sym_matched[of "Is (AChr CHR ''#'')" _ pre s m]
  by (simp add: directive_regex_def lit_def)

lemma directive_unfold:
  "preprocessor_directive_mutation s =
     (case search_from directive_regex [] s of
        None \<Rightarrow> s
      | Some m \<Rightarrow> m_prefix m @ format m ''//$1'' @ preprocessor_directive_mutation (m_suffix m))"
  unfolding preprocessor_directive_mutation_def regex_replace_def
  by (rule regex_replace_from_nonempty) (rule directive_nonempty)

lemma no_directive_left:
  "suffix b (preprocessor_directive_mutation s) \<Longrightarrow> re_match False directive_regex b 0 [] = None"
proof (induction "length s" arbitrary: s b rule: less_induct)
  case less
  show ?case
  proof (cases "search_from directive_regex [] s")
    case None
    then have "preprocessor_directive_mutation s = s" by (simp add: directive_unfold[of s])
    with None less.prems show ?thesis by (simp add: search_from_None_iff)
  next
    case (Some m)
    from directive_search_SomeD[OF Some] obtain a t kw where
      s: "s = a @ CHR ''#'' # t" and kw: "kw = ''include'' \<or> kw = ''pragma once''"
      and mp: "m_prefix m = [] @ a" and f: "format m ''//$1'' = ''//'' @ kw"
      and l: "\<forall>a2. suffix a2 a \<and> a2 \<noteq> [] \<longrightarrow>
          re_match False directive_regex (a2 @ CHR ''#'' # t) 0 [] = None"
      by blast
    have len: "length (m_suffix m) < length s"
      using search_from_suffix_less[OF Some] directive_nonempty[OF Some] .
    let ?rest = "preprocessor_directive_mutation (m_suffix m)"
    have R: "preprocessor_directive_mutation s = a @ (''//'' @ kw) @ ?rest"
      using mp f by (simp add: directive_unfold[of s] Some)
    from less.prems R have "suffix b (a @ ((''//'' @ kw) @ ?rest))" by simp
    then consider (tail) "suffix b ((''//'' @ kw) @ ?rest)"
      | (head) a2 where "b = a2 @ (''//'' @ kw) @ ?rest" "suffix a2 a" "a2 \<noteq> []"
      unfolding suffix_append[of b a] by (cases "b = (''//'' @ kw) @ ?rest") auto
    then show ?thesis
    proof cases
      case tail
      then consider (rest) "suffix b ?rest"
        | (mid) k2 where "b = k2 @ ?rest" "suffix k2 (''//'' @ kw)" "k2 \<noteq> []"
        unfolding suffix_append[of b "''//'' @ kw"] by (cases "b = ?rest") auto
      then show ?thesis
      proof cases
        case rest
        from less.hyps[OF len rest] show ?thesis .
      next
        case mid
        from mid(2,3) have "hd k2 \<in> set (''//'' @ kw)"
          by (metis hd_in_set set_mono_suffix subsetD)
        with kw have "hd k2 \<noteq> CHR ''#''" by auto
        with mid(1,3) have "\<not> (\<exists>t'. b = CHR ''#'' # t')" by (cases k2) auto
        then show ?thesis by (simp add: directive_None_iff)
      qed
    next
      case head
      from l head have n: "re_match False directive_regex (a2 @ CHR ''#'' # t) 0 [] = None" by blast
      show ?thesis
      proof (rule ccontr)
        assume "re_match False directive_regex b 0 [] \<noteq> None"
        then obtain t' where b: "b = CHR ''#'' # t'" and d: "dir_start t'"
          by (auto simp: directive_None_iff)
        from head(3) obtain x u where a2: "a2 = x # u" by (cases a2) auto
        with b head(1) have x: "x = CHR ''#''" and t': "t' = u @ CHR ''/'' # (CHR ''/'' # kw @ ?rest)"
          by auto
        from d t' have "dir_start (u @ CHR ''#'' # t)" by (auto intro: dir_start_local)
        with a2 x have "re_match False directive_regex (a2 @ CHR ''#'' # t) 0 [] \<noteq> None"
          by (simp add: directive_None_iff)
        with n show False by contradiction
      qed
    qed
  qed
qed

text \<open>
  C8: \<open>preprocessor_directive_mutation\<close> applied to its own output changes nothing, for
  every text. \<open>#include "x"\<close> becomes \<open>//include "x"\<close>, which a second pass leaves as
  it is.
\<close>

theorem directive_mutation_idempotent:
  "preprocessor_directive_mutation (preprocessor_directive_mutation s) =
     preprocessor_directive_mutation s
   \<and> preprocessor_directive_mutation (''#include '' @ [CHR 0x22] @ ''x'' @ [CHR 0x22]) =
       ''//include '' @ [CHR 0x22] @ ''x'' @ [CHR 0x22]
   \<and> preprocessor_directive_mutation (''//include '' @ [CHR 0x22] @ ''x'' @ [CHR 0x22]) =
       ''//include '' @ [CHR 0x22] @ ''x'' @ [CHR 0x22]"
proof (intro conjI)
  have "search_from directive_regex [] (preprocessor_directive_mutation s) = None"
    by (simp add: search_from_None_iff no_directive_left)
  then show "preprocessor_directive_mutation (preprocessor_directive_mutation s) =
     preprocessor_directive_mutation s"
    by (simp add: directive_unfold[of "preprocessor_directive_mutation s"])
next
  show "preprocessor_directive_mutation (''#include '' @ [CHR 0x22] @ ''x'' @ [CHR 0x22]) =
       ''//include '' @ [CHR 0x22] @ ''x'' @ [CHR 0x22]"
    by code_simp
next
  show "preprocessor_directive_mutation (''//include '' @ [CHR 0x22] @ ''x'' @ [CHR 0x22]) =
       ''//include '' @ [CHR 0x22] @ ''x'' @ [CHR 0x22]"
    by code_simp
qed

section \<open>The comment stripper\<close>

lemma trailing_match_gen:
  "re_match False [Rep (Is (AChr CHR '' '')) False, Sym (Is (AChr CHR ''\<newline>''))] s pos caps =
     (if dropWhile blank s \<noteq> [] \<and> hd (dropWhile blank s) = CHR ''\<newline>''
      then Some (Suc (pos + length (takeWhile blank s)), caps) else None)"
proof (induction s arbitrary: pos)
  case Nil
  then show ?case by simp
next
  case (Cons x xs)
  then show ?case by (cases "x = CHR '' ''") simp_all
qed

lemma trailing_match:
  "re_match False trailing_space_regex s 0 [] =
     (if dropWhile blank s \<noteq> [] \<and> hd (dropWhile blank s) = CHR ''\<newline>''
      then Some (Suc (length (takeWhile blank s)), []) else None)"
  by (simp add: trailing_space_regex_def trailing_match_gen)

lemma trailing_match_newline:
  "re_match False trailing_space_regex (CHR ''\<newline>'' # t) 0 [] \<noteq> None"
  by (simp add: trailing_match)

lemma takeWhile_blank_replicate:
  "takeWhile blank s = replicate (length (takeWhile blank s)) CHR '' ''"
  by (induction s) auto

lemma trailing_search_SomeD:
  assumes "search_from trailing_space_regex pre s = Some m"
  shows "\<exists>a k rest. s = a @ replicate k CHR '' '' @ CHR ''\<newline>'' # rest
           \<and> CHR ''\<newline>'' \<notin> set a
           \<and> m_prefix m = pre @ a \<and> m_suffix m = rest \<and> m_matched m \<noteq> []"
proof -
  from search_from_SomeD[OF assms] obtain a b e caps where
    s: "s = a @ b" and r: "re_match False trailing_space_regex b 0 [] = Some (e, caps)"
    and m: "m = mk_smatch (pre @ a) b e caps"
    and l: "\<forall>a2. suffix a2 a \<and> a2 \<noteq> [] \<longrightarrow> re_match False trailing_space_regex (a2 @ b) 0 [] = None"
    by blast
  let ?k = "length (takeWhile blank b)"
  from r have "dropWhile blank b \<noteq> [] \<and> hd (dropWhile blank b) = CHR ''\<newline>''"
    and e: "e = Suc ?k"
    by (auto simp: trailing_match split: if_splits)
  then obtain rest where d: "dropWhile blank b = CHR ''\<newline>'' # rest"
    by (cases "dropWhile blank b") auto
  have "b = takeWhile blank b @ dropWhile blank b" by simp
  with d have b: "b = replicate ?k CHR '' '' @ CHR ''\<newline>'' # rest"
    using takeWhile_blank_replicate[of b] by simp
  have na: "CHR ''\<newline>'' \<notin> set a"
  proof
    assume "CHR ''\<newline>'' \<in> set a"
    then obtain a1 a3 where "a = a1 @ CHR ''\<newline>'' # a3" by (auto simp: in_set_conv_decomp)
    then have "suffix (CHR ''\<newline>'' # a3) a" by (simp add: suffix_def)
    with l have "re_match False trailing_space_regex ((CHR ''\<newline>'' # a3) @ b) 0 [] = None" by blast
    then show False using trailing_match_newline[of "a3 @ b"] by simp
  qed
  have sf: "m_suffix m = rest"
  proof -
    have "drop e b = drop (Suc ?k) (replicate ?k CHR '' '' @ CHR ''\<newline>'' # rest)"
      using b e by simp
    also have "\<dots> = rest" by simp
    finally show ?thesis by (simp add: m mk_smatch_def)
  qed
  have mm: "m_matched m \<noteq> []"
  proof -
    have "take e b = take (Suc ?k) (replicate ?k CHR '' '' @ CHR ''\<newline>'' # rest)"
      using b e by simp
    also have "\<dots> \<noteq> []" by (cases ?k) auto
    finally show ?thesis by (simp add: m mk_smatch_def)
  qed
  have c1: "s = a @ replicate ?k CHR '' '' @ CHR ''\<newline>'' # rest" using s b by simp
  have c3: "m_prefix m = pre @ a" by (simp add: m mk_smatch_def)
  show ?thesis
    by (intro exI[of _ a] exI[of _ ?k] exI[of _ rest] conjI) (rule c1 na c3 sf mm)+
qed

lemma trailing_search_None:
  assumes "search_from trailing_space_regex pre s = None"
  shows "CHR ''\<newline>'' \<notin> set s"
proof
  assume "CHR ''\<newline>'' \<in> set s"
  then obtain a1 a3 where "s = a1 @ CHR ''\<newline>'' # a3" by (auto simp: in_set_conv_decomp)
  then have "suffix (CHR ''\<newline>'' # a3) s" by (simp add: suffix_def)
  with assms have "re_match False trailing_space_regex (CHR ''\<newline>'' # a3) 0 [] = None"
    by (simp add: search_from_None_iff)
  then show False using trailing_match_newline[of a3] by simp
qed

lemma trailing_nonempty:
  "search_from trailing_space_regex pre s = Some m \<Longrightarrow> m_matched m \<noteq> []"
  using trailing_search_SomeD by blast

lemma trailing_unfold:
  "regex_replace s trailing_space_regex ''\<newline>'' =
     (case search_from trailing_space_regex [] s of
        None \<Rightarrow> s
      | Some m \<Rightarrow> m_prefix m @ ''\<newline>'' @ regex_replace (m_suffix m) trailing_space_regex ''\<newline>'')"
proof -
  note u = regex_replace_from_nonempty[where r = trailing_space_regex and fmt = "''\<newline>''"
      and s = s, OF trailing_nonempty]
  show ?thesis
  proof (cases "search_from trailing_space_regex [] s")
    case None
    with u show ?thesis by (simp add: regex_replace_def)
  next
    case (Some m)
    with u show ?thesis by (simp add: regex_replace_def)
  qed
qed

lemma split_lines_no_newline:
  "CHR ''\<newline>'' \<notin> set s \<Longrightarrow> split_lines s = [s]"
  by (induction s) auto

lemma split_lines_append_newline:
  "CHR ''\<newline>'' \<notin> set a \<Longrightarrow> split_lines (a @ CHR ''\<newline>'' # rest) = a # split_lines rest"
  by (induction a) auto

lemma count_list_notin: "x \<notin> set xs \<Longrightarrow> count_list xs x = 0"
  by (induction xs) auto

lemma count_list_replicate_other: "x \<noteq> y \<Longrightarrow> count_list (replicate k y) x = 0"
  by (induction k) auto

text \<open>The last step of \<open>remove_comments\<close> neither removes nor adds a newline.\<close>

lemma trailing_replace_newlines:
  "count_list (regex_replace s trailing_space_regex ''\<newline>'') CHR ''\<newline>'' =
     count_list s CHR ''\<newline>''"
proof (induction "length s" arbitrary: s rule: less_induct)
  case less
  let ?R = "\<lambda>t. regex_replace t trailing_space_regex ''\<newline>''"
  show ?case
  proof (cases "search_from trailing_space_regex [] s")
    case None
    then show ?thesis by (simp add: trailing_unfold[of s])
  next
    case (Some m)
    from trailing_search_SomeD[OF Some] obtain a k rest where
      s: "s = a @ replicate k CHR '' '' @ CHR ''\<newline>'' # rest"
      and na: "CHR ''\<newline>'' \<notin> set a"
      and mp: "m_prefix m = [] @ a" and ms: "m_suffix m = rest"
      by blast
    have len: "length rest < length s" using s by simp
    have R: "?R s = a @ CHR ''\<newline>'' # ?R rest"
      using mp ms by (simp add: trailing_unfold[of s] Some)
    have c1: "count_list s CHR ''\<newline>'' = Suc (count_list rest CHR ''\<newline>'')"
      using na by (simp add: s count_list_notin count_list_replicate_other)
    have c2: "count_list (?R s) CHR ''\<newline>'' = Suc (count_list (?R rest) CHR ''\<newline>'')"
      using na by (simp add: R count_list_notin)
    from c1 c2 less[OF len] show ?thesis by simp
  qed
qed

lemma find_in_SomeD:
  "find_in pat s i = Some j \<Longrightarrow>
   \<exists>k. j = i + k \<and> prefix pat (drop k s) \<and> (\<forall>k'<k. \<not> prefix pat (drop k' s))"
proof (induction pat s i rule: find_in.induct)
  case (1 pat i)
  then show ?case by (auto split: if_splits)
next
  case (2 pat x xs i)
  show ?case
  proof (cases "prefix pat (x # xs)")
    case True
    with 2(2) have "j = i + 0" by simp
    with True show ?thesis by (intro exI[of _ 0]) simp
  next
    case False
    with 2 obtain k where k: "j = Suc i + k" "prefix pat (drop k xs)"
      "\<forall>k'<k. \<not> prefix pat (drop k' xs)" by auto
    have "\<forall>k'<Suc k. \<not> prefix pat (drop k' (x # xs))"
    proof (intro allI impI)
      fix k' assume "k' < Suc k"
      then show "\<not> prefix pat (drop k' (x # xs))"
        using False k(3) by (cases k') auto
    qed
    with k show ?thesis by (intro exI[of _ "Suc k"]) simp
  qed
qed

lemma str_find_SomeD:
  assumes "str_find s pat pos = Some j"
  shows "pos \<le> j" and "j + length pat \<le> length s" and "prefix pat (drop j s)"
    and "\<And>k. pos \<le> k \<Longrightarrow> k < j \<Longrightarrow> \<not> prefix pat (drop k s)"
proof -
  from str_find_bounds[OF assms] show "pos \<le> j" and "j + length pat \<le> length s" by auto
  from assms have f: "find_in pat (drop pos s) pos = Some j"
    by (simp add: str_find_def split: if_splits)
  from find_in_SomeD[OF f] obtain k where k: "j = pos + k" "prefix pat (drop k (drop pos s))"
    "\<forall>k'<k. \<not> prefix pat (drop k' (drop pos s))" by blast
  from k(1,2) show "prefix pat (drop j s)" by (simp add: add.commute)
  show "\<not> prefix pat (drop k' s)" if "pos \<le> k'" "k' < j" for k'
  proof -
    from that k(1) have "k' - pos < k" by simp
    with k(3) have "\<not> prefix pat (drop (k' - pos) (drop pos s))" by blast
    with that show ?thesis by simp
  qed
qed

lemma prefix_two_nth:
  "prefix [c1, c2] (drop j s) \<Longrightarrow> j + 2 \<le> length s \<Longrightarrow> s ! j = c1 \<and> s ! Suc j = c2"
proof -
  assume p: "prefix [c1, c2] (drop j s)" and l: "j + 2 \<le> length s"
  from l have "drop j s = s ! j # s ! Suc j # drop (Suc (Suc j)) s"
    by (simp add: Cons_nth_drop_Suc)
  with p show ?thesis by simp
qed

lemma prefix_one_nth:
  "k < length s \<Longrightarrow> prefix [c] (drop k s) \<longleftrightarrow> s ! k = c"
proof -
  assume "k < length s"
  then have "drop k s = s ! k # drop (Suc k) s" by (simp add: Cons_nth_drop_Suc)
  then show ?thesis by auto
qed

lemma length_fold_update:
  "length (fold (\<lambda>i s. if P s i then s[i := c] else s) is out) = length out"
  by (induction "is" arbitrary: out) auto

lemma fold_blank_nth:
  "b \<le> length out \<Longrightarrow> j < length out \<Longrightarrow>
   fold (\<lambda>i s. if s ! i \<noteq> nl then s[i := c] else s) [a..<b] out ! j =
     (if a \<le> j \<and> j < b \<and> out ! j \<noteq> nl then c else out ! j)"
proof (induction b arbitrary: j)
  case 0
  then show ?case by simp
next
  case (Suc b)
  let ?f = "\<lambda>i s. if s ! i \<noteq> nl then s[i := c] else s"
  show ?case
  proof (cases "a \<le> b")
    case False
    then show ?thesis by auto
  next
    case True
    let ?F = "fold ?f [a..<b] out"
    have len: "length ?F = length out"
      using length_fold_update[of "\<lambda>s i. s ! i \<noteq> nl" c "[a..<b]" out] by simp
    have IH: "?F ! j' = (if a \<le> j' \<and> j' < b \<and> out ! j' \<noteq> nl then c else out ! j')"
      if "j' < length out" for j'
      using Suc.IH[of j'] Suc.prems that by simp
    have Fb: "?F ! b = out ! b" using IH[of b] Suc.prems by simp
    have "fold ?f [a..<Suc b] out = ?f b ?F" using True by simp
    then show ?thesis using IH[of j] Suc.prems Fb len True
      by (cases "j = b") auto
  qed
qed

lemma blank_multi_nth:
  "e + 2 \<le> length out \<Longrightarrow> j < length out \<Longrightarrow>
   blank_multi out a e ! j =
     (if a \<le> j \<and> j < e + 2 \<and> out ! j \<noteq> CHR ''\<newline>'' then CHR '' '' else out ! j)"
  unfolding blank_multi_def by (rule fold_blank_nth)

lemma blank_single_nth:
  "e \<le> length out \<Longrightarrow> j < length out \<Longrightarrow>
   blank_single out a e ! j = (if a \<le> j \<and> j < e then CHR '' '' else out ! j)"
  unfolding blank_single_def
proof (induction e)
  case 0
  then show ?case by simp
next
  case (Suc e)
  let ?f = "\<lambda>i s. s[i := CHR '' '']"
  show ?case
  proof (cases "a \<le> e")
    case False
    then show ?thesis by auto
  next
    case True
    let ?F = "fold ?f [a..<e] out"
    have len: "length ?F = length out"
      using length_blank_single[of out a e] by (simp add: blank_single_def)
    have IH: "?F ! j = (if a \<le> j \<and> j < e then CHR '' '' else out ! j)"
      using Suc by simp
    have "fold ?f [a..<Suc e] out = ?f e ?F" using True by simp
    then show ?thesis using IH Suc.prems len True by (cases "j = e") auto
  qed
qed

lemma blanked_count:
  assumes "length b = length s"
    and "\<forall>i<length s. b ! i = s ! i \<or> (b ! i = CHR '' '' \<and> s ! i \<noteq> CHR ''\<newline>'')"
  shows "count_list b CHR ''\<newline>'' = count_list s CHR ''\<newline>''"
proof -
  from assms have "list_all2 (\<lambda>x y. y = x \<or> (y = CHR '' '' \<and> x \<noteq> CHR ''\<newline>'')) s b"
    by (simp add: list_all2_conv_all_nth)
  then show ?thesis by (induction rule: list_all2_induct) auto
qed

lemma covered_simps [simp]:
  "covered [] i = False"
  "covered ((a, b) # rs) i = (a \<le> i \<and> i < b \<or> covered rs i)"
  by (simp_all add: covered_def)

lemma length_blank_out [simp]: "length (blank_out rs s) = length s"
  by (simp add: blank_out_def)

lemma blank_out_nth:
  "i < length s \<Longrightarrow>
   blank_out rs s ! i = (if covered rs i \<and> s ! i \<noteq> CHR ''\<newline>'' then CHR '' '' else s ! i)"
  by (simp add: blank_out_def)

lemma str_find_cong:
  assumes "length out = length s" and "\<And>j. pos \<le> j \<Longrightarrow> j < length s \<Longrightarrow> out ! j = s ! j"
  shows "str_find out pat pos = str_find s pat pos"
proof -
  have "drop pos out = drop pos s"
    using assms by (intro nth_equalityI) auto
  with assms(1) show ?thesis by (simp add: str_find_def)
qed

lemma str_find_skip_blanks:
  assumes "z + 2 \<le> length out" and "out ! z = CHR '' ''" and "out ! Suc z = CHR '' ''"
  shows "str_find out ''/*'' z = str_find out ''/*'' (z + 2)"
proof -
  from assms(1) have "drop z out = out ! z # out ! Suc z # drop (z + 2) out"
    by (simp add: Cons_nth_drop_Suc)
  with assms show ?thesis by (simp add: str_find_def)
qed

lemma multi_line_loop_scan:
  assumes "multi_line_loop out z = (res, r)"
    and "length out = length s"
    and "\<And>j. from \<le> j \<Longrightarrow> j < length s \<Longrightarrow> out ! j = s ! j"
    and "z = from \<or> (from = z + 2 \<and> from \<le> length s \<and> out ! z = CHR '' '' \<and> out ! Suc z = CHR '' '')"
  shows "length res = length s
     \<and> (\<forall>i<length s. res ! i =
           (if covered (fst (block_scan s from)) i \<and> s ! i \<noteq> CHR ''\<newline>'' then CHR '' ''
            else out ! i))
     \<and> (r = None \<longleftrightarrow> snd (block_scan s from))"
  using assms
proof (induction out z arbitrary: res r "from" rule: multi_line_loop.induct)
  case (1 out z)
  note len = "1.prems"(2) and same = "1.prems"(3)
  have f1: "str_find out ''/*'' z = str_find s ''/*'' from"
  proof (cases "z = from")
    case True
    with str_find_cong[OF len, of "from" "''/*''"] same show ?thesis by simp
  next
    case False
    with "1.prems"(4) have *: "from = z + 2" "from \<le> length s" "out ! z = CHR '' ''"
      "out ! Suc z = CHR '' ''" by auto
    from * len have "str_find out ''/*'' z = str_find out ''/*'' (z + 2)"
      by (intro str_find_skip_blanks) auto
    also have "\<dots> = str_find s ''/*'' from"
      using str_find_cong[OF len, of "from" "''/*''"] same * by simp
    finally show ?thesis .
  qed
  show ?case
  proof (cases "str_find out ''/*'' z")
    case None
    with "1.prems"(1) have "res = out" "r = Some z" by (simp_all add: multi_line_loop.simps[of out z])
    moreover from None f1 have "block_scan s from = ([], False)"
      by (simp add: block_scan.simps[of s "from"])
    ultimately show ?thesis using len by simp
  next
    case (Some a)
    note st = this
    with f1 have sa: "str_find s ''/*'' from = Some a" by simp
    from str_find_SomeD(1,2)[OF sa] have a: "from \<le> a" "a + 2 \<le> length s" by auto
    have f2: "str_find out ''*/'' (a + 2) = str_find s ''*/'' (a + 2)"
      using str_find_cong[OF len, of "a + 2" "''*/''"] same a by simp
    show ?thesis
    proof (cases "str_find out ''*/'' (a + 2)")
      case None
      with st "1.prems"(1) have "res = out" "r = None"
        by (simp_all add: multi_line_loop.simps[of out z])
      moreover from None f2 sa have "block_scan s from = ([], True)"
        by (simp add: block_scan.simps[of s "from"])
      ultimately show ?thesis using len by simp
    next
      case (Some z2)
      with f2 have sz: "str_find s ''*/'' (a + 2) = Some z2" by simp
      from str_find_SomeD(1,2,3)[OF sz] have z2: "a + 2 \<le> z2" "z2 + 2 \<le> length s"
        and pz: "prefix ''*/'' (drop z2 s)" by auto
      from prefix_two_nth[OF pz z2(2)] have mz: "s ! z2 = CHR ''*''" "s ! Suc z2 = CHR ''/''"
        by auto
      let ?o = "blank_multi out a z2"
      from "1.prems"(1) st Some have rec: "multi_line_loop ?o z2 = (res, r)"
        by (simp add: multi_line_loop.simps[of out z])
      have z2o: "z2 + 2 \<le> length out" using z2 len by simp
      note nth = blank_multi_nth[OF z2o, of _ a]
      have len': "length ?o = length s" using len by simp
      have same': "?o ! j = s ! j" if "z2 + 2 \<le> j" "j < length s" for j
        using nth[of j] that len same[of j] a z2 by simp
      have oz: "out ! z2 = s ! z2" "out ! Suc z2 = s ! Suc z2"
        using same[of z2] same[of "Suc z2"] a z2 by simp_all
      have bl: "?o ! z2 = CHR '' ''" "?o ! Suc z2 = CHR '' ''"
        using nth[of z2] nth[of "Suc z2"] z2 len oz mz by simp_all
      have pre': "z2 = z2 + 2 \<or> (z2 + 2 = z2 + 2 \<and> z2 + 2 \<le> length s \<and> ?o ! z2 = CHR '' ''
          \<and> ?o ! Suc z2 = CHR '' '')"
        using bl z2 by simp
      from "1.IH"[OF st Some rec len' same' pre']
      have lr: "length res = length s"
        and IH: "\<forall>i<length s. res ! i =
           (if covered (fst (block_scan s (z2 + 2))) i \<and> s ! i \<noteq> CHR ''\<newline>'' then CHR '' ''
            else ?o ! i)"
        and rr: "r = None \<longleftrightarrow> snd (block_scan s (z2 + 2))"
        by simp_all
      have bs: "block_scan s from =
          ((a, z2 + 2) # fst (block_scan s (z2 + 2)), snd (block_scan s (z2 + 2)))"
        using sa sz by (simp add: block_scan.simps[of s "from"])
      have "res ! i =
           (if covered (fst (block_scan s from)) i \<and> s ! i \<noteq> CHR ''\<newline>'' then CHR '' ''
            else out ! i)" if i: "i < length s" for i
      proof (cases "a \<le> i \<and> i < z2 + 2")
        case True
        with same[of i] a i have "out ! i = s ! i" by simp
        with IH[rule_format, OF i] nth[of i] i len True show ?thesis
          by (simp add: bs)
      next
        case False
        hence "\<not> (a \<le> i \<and> i < z2 + 2 \<and> out ! i \<noteq> CHR ''\<newline>'')" by blast
        with nth[of i] i len have "?o ! i = out ! i" by simp
        with IH[rule_format, OF i] False show ?thesis
          by (auto simp add: bs)
      qed
      with lr rr bs show ?thesis by simp
    qed
  qed
qed



lemma line_scan_covered:
  "covered (fst (line_scan t z)) i \<Longrightarrow> i < length t \<Longrightarrow> z \<le> i \<and> t ! i \<noteq> CHR ''\<newline>''"
proof (induction t z rule: line_scan.induct)
  case (1 t z)
  show ?case
  proof (cases "str_find t ''//'' z")
    case None
    with "1.prems" show ?thesis by (simp add: line_scan.simps[of t z])
  next
    case (Some a)
    note sa = this
    show ?thesis
    proof (cases "str_find t ''\<newline>'' (a + 2)")
      case None
      with sa "1.prems" show ?thesis by (simp add: line_scan.simps[of t z])
    next
      case (Some zz)
      from str_find_SomeD(1,2,3)[OF sa] have a: "z \<le> a" "a + 2 \<le> length t"
        and pa: "prefix ''//'' (drop a t)" by auto
      from prefix_two_nth[OF pa a(2)] have ma: "t ! a = CHR ''/''" "t ! Suc a = CHR ''/''"
        by auto
      from str_find_SomeD(1)[OF Some] have zz: "a + 2 \<le> zz" .
      note first = str_find_SomeD(4)[OF Some]
      have ls: "line_scan t z = ((a, zz) # fst (line_scan t zz), snd (line_scan t zz))"
        using sa Some by (simp add: line_scan.simps[of t z])
      from "1.prems"(1) ls have "(a \<le> i \<and> i < zz) \<or> covered (fst (line_scan t zz)) i"
        by simp
      then show ?thesis
      proof
        assume r: "a \<le> i \<and> i < zz"
        have "t ! i \<noteq> CHR ''\<newline>''"
        proof (cases "i < a + 2")
          case True
          with r have "i = a \<or> i = Suc a" by auto
          with ma show ?thesis by auto
        next
          case False
          with first[of i] r have "\<not> prefix ''\<newline>'' (drop i t)" by simp
          with prefix_one_nth[OF "1.prems"(2), of "CHR ''\<newline>''"] show ?thesis by simp
        qed
        with r a show ?thesis by simp
      next
        assume "covered (fst (line_scan t zz)) i"
        from "1.IH"[OF sa Some this "1.prems"(2)] zz a show ?thesis by simp
      qed
    qed
  qed
qed

lemma single_line_loop_scan:
  assumes "single_line_loop out z = (res, r)"
    and "length out = length t"
    and "\<And>j. z \<le> j \<Longrightarrow> j < length t \<Longrightarrow> out ! j = t ! j"
  shows "length res = length t
     \<and> (\<forall>i<length t. res ! i =
           (if covered (fst (line_scan t z)) i then CHR '' '' else out ! i))
     \<and> (r = None \<longleftrightarrow> snd (line_scan t z))"
  using assms
proof (induction out z arbitrary: res r rule: single_line_loop.induct)
  case (1 out z)
  note len = "1.prems"(2) and same = "1.prems"(3)
  have f1: "str_find out ''//'' z = str_find t ''//'' z"
    using str_find_cong[OF len, of z "''//''"] same by simp
  show ?case
  proof (cases "str_find out ''//'' z")
    case None
    with "1.prems"(1) have "res = out" "r = Some z"
      by (simp_all add: single_line_loop.simps[of out z])
    moreover from None f1 have "line_scan t z = ([], False)"
      by (simp add: line_scan.simps[of t z])
    ultimately show ?thesis using len by simp
  next
    case (Some a)
    note st = this
    with f1 have sa: "str_find t ''//'' z = Some a" by simp
    from str_find_SomeD(1,2)[OF sa] have a: "z \<le> a" "a + 2 \<le> length t" by auto
    have f2: "str_find out ''\<newline>'' (a + 2) = str_find t ''\<newline>'' (a + 2)"
      using str_find_cong[OF len, of "a + 2" "''\<newline>''"] same a by simp
    show ?thesis
    proof (cases "str_find out ''\<newline>'' (a + 2)")
      case None
      with st "1.prems"(1) have "res = out" "r = None"
        by (simp_all add: single_line_loop.simps[of out z])
      moreover from None f2 sa have "line_scan t z = ([], True)"
        by (simp add: line_scan.simps[of t z])
      ultimately show ?thesis using len by simp
    next
      case (Some z2)
      with f2 have sz: "str_find t ''\<newline>'' (a + 2) = Some z2" by simp
      from str_find_SomeD(1,2)[OF sz] have z2: "a + 2 \<le> z2" "z2 + 1 \<le> length t" by auto
      let ?o = "blank_single out a z2"
      from "1.prems"(1) st Some have rec: "single_line_loop ?o z2 = (res, r)"
        by (simp add: single_line_loop.simps[of out z])
      have z2o: "z2 \<le> length out" using z2 len by simp
      note nth = blank_single_nth[OF z2o, of _ a]
      have len': "length ?o = length t" using len by simp
      have same': "?o ! j = t ! j" if "z2 \<le> j" "j < length t" for j
        using nth[of j] that len same[of j] a z2 by simp
      from "1.IH"[OF st Some rec len' same']
      have lr: "length res = length t"
        and IH: "\<forall>i<length t. res ! i =
           (if covered (fst (line_scan t z2)) i then CHR '' '' else ?o ! i)"
        and rr: "r = None \<longleftrightarrow> snd (line_scan t z2)"
        by simp_all
      have ls: "line_scan t z = ((a, z2) # fst (line_scan t z2), snd (line_scan t z2))"
        using sa sz by (simp add: line_scan.simps[of t z])
      have "res ! i =
           (if covered (fst (line_scan t z)) i then CHR '' '' else out ! i)"
        if i: "i < length t" for i
        using IH[rule_format, OF i] nth[of i] i len by (auto simp add: ls)
      with lr rr ls show ?thesis by simp
    qed
  qed
qed

text \<open>The two scanning loops of \<open>remove_comments\<close> blank the comments of the two scans.\<close>

lemma multi_line_loop_block_scan:
  "fst (multi_line_loop s 0) = blank_out (fst (block_scan s 0)) s
   \<and> (snd (multi_line_loop s 0) = None \<longleftrightarrow> snd (block_scan s 0))"
proof -
  obtain res r where m: "multi_line_loop s 0 = (res, r)" by (cases "multi_line_loop s 0")
  have "length res = length s
     \<and> (\<forall>i<length s. res ! i =
           (if covered (fst (block_scan s 0)) i \<and> s ! i \<noteq> CHR ''\<newline>'' then CHR '' ''
            else s ! i))
     \<and> (r = None \<longleftrightarrow> snd (block_scan s 0))"
    by (rule multi_line_loop_scan[OF m]) simp_all
  then have l: "length res = length s"
    and n: "\<And>i. i < length s \<Longrightarrow> res ! i =
           (if covered (fst (block_scan s 0)) i \<and> s ! i \<noteq> CHR ''\<newline>'' then CHR '' ''
            else s ! i)"
    and r: "r = None \<longleftrightarrow> snd (block_scan s 0)" by simp_all
  have "res = blank_out (fst (block_scan s 0)) s"
    using l n by (intro nth_equalityI) (simp_all add: blank_out_nth)
  with r m show ?thesis by simp
qed

lemma single_line_loop_line_scan:
  "fst (single_line_loop t 0) = blank_out (fst (line_scan t 0)) t
   \<and> (snd (single_line_loop t 0) = None \<longleftrightarrow> snd (line_scan t 0))"
proof -
  obtain res r where m: "single_line_loop t 0 = (res, r)" by (cases "single_line_loop t 0")
  have "length res = length t
     \<and> (\<forall>i<length t. res ! i =
           (if covered (fst (line_scan t 0)) i then CHR '' '' else t ! i))
     \<and> (r = None \<longleftrightarrow> snd (line_scan t 0))"
    by (rule single_line_loop_scan[OF m]) simp_all
  then have l: "length res = length t"
    and n: "\<And>i. i < length t \<Longrightarrow> res ! i =
           (if covered (fst (line_scan t 0)) i then CHR '' '' else t ! i)"
    and r: "r = None \<longleftrightarrow> snd (line_scan t 0)" by simp_all
  have "res ! i = blank_out (fst (line_scan t 0)) t ! i" if i: "i < length t" for i
    using n[OF i] line_scan_covered[of t 0 i] i by (auto simp add: blank_out_nth)
  then have "res = blank_out (fst (line_scan t 0)) t"
    using l by (intro nth_equalityI) simp_all
  with r m show ?thesis by simp
qed

lemma remove_comments_scans:
  "fst (remove_comments s report_error e) =
     (if malformed s then comments_blanked s
      else regex_replace (comments_blanked s) trailing_space_regex ''\<newline>'')"
proof -
  let ?b1 = "blank_out (fst (block_scan s 0)) s"
  obtain o1 r1 where m: "multi_line_loop s 0 = (o1, r1)" by (cases "multi_line_loop s 0")
  obtain o2 r2 where l: "single_line_loop ?b1 0 = (o2, r2)" by (cases "single_line_loop ?b1 0")
  from multi_line_loop_block_scan[of s] m have o1: "o1 = ?b1"
    and r1: "r1 = None \<longleftrightarrow> snd (block_scan s 0)" by simp_all
  from single_line_loop_line_scan[of ?b1] l have o2: "o2 = blank_out (fst (line_scan ?b1 0)) ?b1"
    and r2: "r2 = None \<longleftrightarrow> snd (line_scan ?b1 0)" by simp_all
  show ?thesis
  proof (cases r1)
    case None
    with m o1 r1 show ?thesis
      by (simp add: remove_comments_def malformed_def comments_blanked_def Let_def)
  next
    case (Some x)
    with r1 have nb: "\<not> snd (block_scan s 0)" by simp
    show ?thesis
    proof (cases r2)
      case None
      with m l o1 o2 r2 Some nb show ?thesis
        by (simp add: remove_comments_def malformed_def comments_blanked_def Let_def)
    next
      case (Some y)
      with r2 have "\<not> snd (line_scan ?b1 0)" by simp
      with m l o1 o2 Some \<open>r1 = Some x\<close> nb show ?thesis
        by (simp add: remove_comments_def malformed_def comments_blanked_def Let_def)
    qed
  qed
qed

lemma trailing_search_split:
  assumes "search_from trailing_space_regex pre s = Some m"
  shows "\<exists>a k rest. s = a @ replicate k CHR '' '' @ CHR ''\<newline>'' # rest
           \<and> CHR ''\<newline>'' \<notin> set a \<and> (a = [] \<or> last a \<noteq> CHR '' '')
           \<and> m_prefix m = pre @ a \<and> m_suffix m = rest"
proof -
  from search_from_SomeD[OF assms] obtain a b e caps where
    s: "s = a @ b" and r: "re_match False trailing_space_regex b 0 [] = Some (e, caps)"
    and m: "m = mk_smatch (pre @ a) b e caps"
    and l: "\<forall>a2. suffix a2 a \<and> a2 \<noteq> [] \<longrightarrow> re_match False trailing_space_regex (a2 @ b) 0 [] = None"
    by blast
  let ?k = "length (takeWhile blank b)"
  from r have dw: "dropWhile blank b \<noteq> [] \<and> hd (dropWhile blank b) = CHR ''\<newline>''"
    and e: "e = Suc ?k"
    by (auto simp: trailing_match split: if_splits)
  then obtain rest where d: "dropWhile blank b = CHR ''\<newline>'' # rest"
    by (cases "dropWhile blank b") auto
  have "b = takeWhile blank b @ dropWhile blank b" by simp
  with d have b: "b = replicate ?k CHR '' '' @ CHR ''\<newline>'' # rest"
    using takeWhile_blank_replicate[of b] by simp
  have na: "CHR ''\<newline>'' \<notin> set a"
  proof
    assume "CHR ''\<newline>'' \<in> set a"
    then obtain a1 a3 where "a = a1 @ CHR ''\<newline>'' # a3" by (auto simp: in_set_conv_decomp)
    then have "suffix (CHR ''\<newline>'' # a3) a" by (simp add: suffix_def)
    with l have "re_match False trailing_space_regex ((CHR ''\<newline>'' # a3) @ b) 0 [] = None" by blast
    then show False using trailing_match_newline[of "a3 @ b"] by simp
  qed
  have la: "a = [] \<or> last a \<noteq> CHR '' ''"
  proof (rule ccontr)
    assume "\<not> (a = [] \<or> last a \<noteq> CHR '' '')"
    then have "a = butlast a @ [CHR '' '']" by (metis append_butlast_last_id)
    then have "suffix [CHR '' ''] a" by (metis suffixI)
    with l have "re_match False trailing_space_regex ([CHR '' ''] @ b) 0 [] = None" by blast
    with dw show False by (simp add: trailing_match)
  qed
  have sf: "m_suffix m = rest"
  proof -
    have "drop e b = drop (Suc ?k) (replicate ?k CHR '' '' @ CHR ''\<newline>'' # rest)"
      using b e by simp
    also have "\<dots> = rest" by simp
    finally show ?thesis by (simp add: m mk_smatch_def)
  qed
  have c1: "s = a @ replicate ?k CHR '' '' @ CHR ''\<newline>'' # rest" using s b by simp
  have c3: "m_prefix m = pre @ a" by (simp add: m mk_smatch_def)
  show ?thesis
    by (intro exI[of _ a] exI[of _ ?k] exI[of _ rest] conjI) (rule c1 na la c3 sf)+
qed

lemma split_lines_nonempty: "split_lines s \<noteq> []"
  by (induction s) (auto split: list.splits)

lemma strip_ended_nonempty: "ls \<noteq> [] \<Longrightarrow> strip_ended ls \<noteq> []"
  by (induction ls rule: strip_ended.induct) auto

lemma strip_ended_Cons: "ls \<noteq> [] \<Longrightarrow> strip_ended (l # ls) = strip_end l # strip_ended ls"
  by (cases ls) auto

lemma join_lines_Cons: "ls \<noteq> [] \<Longrightarrow> join_lines (l # ls) = l @ CHR ''\<newline>'' # join_lines ls"
  by (cases ls) auto

lemma strip_end_blanks:
  assumes "a = [] \<or> last a \<noteq> CHR '' ''"
  shows "strip_end (a @ replicate k CHR '' '') = a"
proof -
  have "dropWhile (\<lambda>c. c = CHR '' '') (replicate k CHR '' '' @ rev a) =
        dropWhile (\<lambda>c. c = CHR '' '') (rev a)"
    by (induction k) auto
  also have "\<dots> = rev a"
  proof (cases "a = []")
    case True
    then show ?thesis by simp
  next
    case False
    with assms have "hd (rev a) \<noteq> CHR '' ''" by (simp add: hd_rev)
    with False show ?thesis by (cases "rev a") auto
  qed
  finally show ?thesis by (simp add: strip_end_def)
qed

text \<open>
  The last step of \<open>remove_comments\<close>, the replacement of \<open>"(\\ )*?\\n"\<close> by a newline,
  removes the blanks that stand right before a newline, and nothing else.
\<close>

lemma trailing_replace_strip_lines:
  "regex_replace s trailing_space_regex ''\<newline>'' = strip_lines s"
proof (induction "length s" arbitrary: s rule: less_induct)
  case less
  let ?R = "\<lambda>t. regex_replace t trailing_space_regex ''\<newline>''"
  show ?case
  proof (cases "search_from trailing_space_regex [] s")
    case None
    then have R: "?R s = s" by (simp add: trailing_unfold[of s])
    from trailing_search_None[OF None] have "split_lines s = [s]"
      by (rule split_lines_no_newline)
    with R show ?thesis by (simp add: strip_lines_def)
  next
    case (Some m)
    from trailing_search_split[OF Some] obtain a k rest where
      s: "s = a @ replicate k CHR '' '' @ CHR ''\<newline>'' # rest"
      and na: "CHR ''\<newline>'' \<notin> set a"
      and la: "a = [] \<or> last a \<noteq> CHR '' ''"
      and mp: "m_prefix m = [] @ a" and ms: "m_suffix m = rest"
      by blast
    have len: "length rest < length s" using s by simp
    have R: "?R s = a @ CHR ''\<newline>'' # ?R rest"
      using mp ms by (simp add: trailing_unfold[of s] Some)
    have nb: "CHR ''\<newline>'' \<notin> set (a @ replicate k CHR '' '')" using na by auto
    have l1: "split_lines s = (a @ replicate k CHR '' '') # split_lines rest"
      using split_lines_append_newline[OF nb, of rest] s by simp
    have "strip_lines s = a @ CHR ''\<newline>'' # strip_lines rest"
      unfolding strip_lines_def l1
      by (simp add: strip_ended_Cons[OF split_lines_nonempty]
          join_lines_Cons[OF strip_ended_nonempty[OF split_lines_nonempty]]
          strip_end_blanks[OF la])
    with R less[OF len] show ?thesis by simp
  qed
qed

lemma blank_out_newlines:
  "count_list (blank_out rs s) CHR ''\<newline>'' = count_list s CHR ''\<newline>''"
  by (rule blanked_count) (auto simp: blank_out_nth)

lemma comments_blanked_newlines:
  "count_list (comments_blanked s) CHR ''\<newline>'' = count_list s CHR ''\<newline>''"
  by (simp add: comments_blanked_def Let_def blank_out_newlines)

lemma split_lines_no_newline_in: "l \<in> set (split_lines s) \<Longrightarrow> CHR ''\<newline>'' \<notin> set l"
proof (induction s arbitrary: l)
  case Nil
  then show ?case by simp
next
  case (Cons c cs)
  show ?case
  proof (cases "c = CHR ''\<newline>''")
    case True
    with Cons show ?thesis by auto
  next
    case False
    obtain l' ls where sl: "split_lines cs = l' # ls"
      using split_lines_nonempty[of cs] by (cases "split_lines cs") auto
    with False Cons.prems have "l = c # l' \<or> l \<in> set ls" by simp
    then show ?thesis
    proof
      assume "l = c # l'"
      with False Cons.IH[of l'] sl show ?thesis by simp
    next
      assume "l \<in> set ls"
      with Cons.IH[of l] sl show ?thesis by simp
    qed
  qed
qed

lemma strip_end_no_newline: "CHR ''\<newline>'' \<notin> set l \<Longrightarrow> CHR ''\<newline>'' \<notin> set (strip_end l)"
  by (auto simp: strip_end_def dest: set_dropWhileD)

lemma strip_ended_no_newline:
  "(\<And>l. l \<in> set ls \<Longrightarrow> CHR ''\<newline>'' \<notin> set l) \<Longrightarrow>
   l \<in> set (strip_ended ls) \<Longrightarrow> CHR ''\<newline>'' \<notin> set l"
  by (induction ls arbitrary: l rule: strip_ended.induct) (auto dest: strip_end_no_newline)

lemma split_lines_join:
  "ls \<noteq> [] \<Longrightarrow> (\<And>l. l \<in> set ls \<Longrightarrow> CHR ''\<newline>'' \<notin> set l) \<Longrightarrow>
   split_lines (join_lines ls) = ls"
proof (induction ls rule: join_lines.induct)
  case 1
  then show ?case by simp
next
  case (2 l)
  then show ?case by (simp add: split_lines_no_newline)
next
  case (3 l l' ls)
  have "CHR ''\<newline>'' \<notin> set l" using "3.prems"(2)[of l] by simp
  from split_lines_append_newline[OF this, of "join_lines (l' # ls)"] "3.IH" "3.prems"(2)
  show ?case by simp
qed

lemma split_lines_strip_lines: "split_lines (strip_lines t) = strip_ended (split_lines t)"
  unfolding strip_lines_def
proof (rule split_lines_join)
  show "strip_ended (split_lines t) \<noteq> []"
    by (rule strip_ended_nonempty) (rule split_lines_nonempty)
  show "CHR ''\<newline>'' \<notin> set l" if "l \<in> set (strip_ended (split_lines t))" for l
    using that by (rule strip_ended_no_newline[rotated]) (rule split_lines_no_newline_in)
qed

lemma comments_blanked_nth:
  assumes "i < length s"
  shows "comments_blanked s ! i =
     (if in_comment s i \<and> s ! i \<noteq> CHR ''\<newline>'' then CHR '' '' else s ! i)"
proof -
  let ?b1 = "blank_out (fst (block_scan s 0)) s"
  have b1: "?b1 ! i =
      (if covered (fst (block_scan s 0)) i \<and> s ! i \<noteq> CHR ''\<newline>'' then CHR '' '' else s ! i)"
    using assms by (rule blank_out_nth)
  show ?thesis
  proof (cases "snd (block_scan s 0)")
    case True
    with b1 show ?thesis by (simp add: comments_blanked_def in_comment_def Let_def)
  next
    case False
    have "blank_out (fst (line_scan ?b1 0)) ?b1 ! i =
      (if covered (fst (line_scan ?b1 0)) i \<and> ?b1 ! i \<noteq> CHR ''\<newline>'' then CHR '' ''
       else ?b1 ! i)"
      using assms by (simp add: blank_out_nth)
    with b1 False show ?thesis
      by (auto simp add: comments_blanked_def in_comment_def Let_def)
  qed
qed




section \<open>The literal scenarios\<close>

text \<open>
  C1, as the claim states it, fails: for the two declarations \<open>shared float foo;\<close> and
  \<open>shared float bar[10];\<close> the text defined for \<open>MSL_SHARED_VARS_PASS\<close> is not
  \<open>(foo,bar)\<close>. The first separator of \<open>suffix\<close> is a blank, also in the \<open>pass\<close> stream.
\<close>

theorem suffix_two_shared_pass_counterexample:
  "map_option (\<lambda>(text, p). macro_definition ''MSL_SHARED_VARS_PASS'' text)
     (process' fresh ''shared float foo;\<newline>shared float bar[10];\<newline>'')
   \<noteq> Some (Some ''(foo,bar)'')"
  by code_simp

text \<open>
  C1, amended: a fresh instance that processes the two declarations appends a suffix
  whose definition of \<open>MSL_SHARED_VARS_ARGS\<close> is the text
  \<open> threadgroup float(&_foo),threadgroup float(&_bar)[10]\<close>, of \<open>MSL_SHARED_VARS_ASSIGN\<close>
  is \<open>:foo(_foo),bar(_bar)\<close>, of \<open>MSL_SHARED_VARS_DECLARE\<close> is
  \<open>threadgroup float foo;threadgroup float bar[10];\<close>, and of \<open>MSL_SHARED_VARS_PASS\<close> is
  \<open>( foo,bar)\<close>, with a blank after the parenthesis.
\<close>

theorem suffix_two_shared:
  "map_option (\<lambda>(text, p). macro_definitions text)
     (process' fresh ''shared float foo;\<newline>shared float bar[10];\<newline>'')
   = Some [Some '' threadgroup float(&_foo),threadgroup float(&_bar)[10]'',
           Some '':foo(_foo),bar(_bar)'',
           Some ''threadgroup float foo;threadgroup float bar[10];'',
           Some ''( foo,bar)'']"
  by code_simp

text \<open>
  C6: for the input \<open>shared float a; shared int b[4];\<close> the collected list is
  \<open>{float, a, ""}\<close> and then \<open>{int, b, "[4]"}\<close>, and each of the four macro definitions
  has the entry of \<open>a\<close> before the entry of \<open>b\<close>.
\<close>

theorem shared_order:
  "map_option (\<lambda>(text, p). (shared_vars p, macro_definitions text))
     (process' fresh ''shared float a; shared int b[4];'')
   = Some ([\<lparr>type = ''float'', name = ''a'', array = []\<rparr>,
            \<lparr>type = ''int'', name = ''b'', array = ''[4]''\<rparr>],
           [Some '' threadgroup float(&_a),threadgroup int(&_b)[4]'',
            Some '':a(_a),b(_b)'',
            Some ''threadgroup float a;threadgroup int b[4];'',
            Some ''( a,b)''])"
  by code_simp

text \<open>
  C9: \<open>argument_decorator_macro_injection\<close> turns \<open>out float var[2]\<close> into
  \<open>out float _out_sta var _out_end[2]\<close>: the start marker stands between the type and
  the identifier, the end marker between the identifier and the brackets, and both carry
  the qualifier.
\<close>

theorem argument_decorator_example:
  "argument_decorator_macro_injection ''out float var[2]'' = ''out float _out_sta var _out_end[2]''"
  by code_simp

end
